theory Spec2Isabelle
  imports Main "HOL-Library.AList"
begin

section \<open>The access token cache of channel.ts\<close>

text \<open>
  The module keeps one pair of variables, \<open>accessToken\<close> and \<open>accessTokenExpiry\<close>,
  for the whole process. \<open>getAccessToken\<close> is an async function: it runs without
  interruption up to its first real suspension, the request made through
  \<open>retryWithBackoff\<close>, and is resumed when that request has settled. The two halves
  are modelled as two functions; what the request returns is decided by the
  environment.
\<close>

record DingTalkConfig =
  clientId :: string
  clientSecret :: string

record token_cache =
  accessToken :: "string option"
  accessTokenExpiry :: int

definition no_token :: token_cache where
  "no_token = \<lparr>accessToken = None, accessTokenExpiry = 0\<rparr>"

text \<open>The safety margin written as the literal 60000 in \<open>getAccessToken\<close>.\<close>

definition TOKEN_MARGIN :: int where
  "TOKEN_MARGIN = 60000"

datatype token_action =
    Cached string
  | Fetch string string int

text \<open>
  The synchronous part: \<open>accessToken && accessTokenExpiry > now + 60000\<close>. A
  string is truthy when it is not empty. \<open>Fetch appKey appSecret now\<close> is the request
  that is started otherwise, with the time captured at the call.
\<close>

definition getAccessToken_start :: "DingTalkConfig \<Rightarrow> int \<Rightarrow> token_cache \<Rightarrow> token_action" where
  "getAccessToken_start config now tc =
     (case accessToken tc of
        None \<Rightarrow> Fetch (clientId config) (clientSecret config) now
      | Some t \<Rightarrow>
          if t \<noteq> [] \<and> accessTokenExpiry tc > now + TOKEN_MARGIN then Cached t
          else Fetch (clientId config) (clientSecret config) now)"

text \<open>
  Modelled from the spec: \<open>retryWithBackoff\<close> is imported from \<open>../utils\<close>, which is not
  among the sources. By the spec (RetryExecutor) it runs the operation up to the
  maximal number of attempts, returns the first success, and fails after the final
  attempt without swallowing the error. So a refresh that has been started ends in one
  of two ways: one call of the closure has succeeded, with the response
  \<open>{accessToken, expireIn}\<close>, or none has.
\<close>

datatype fetch_outcome =
    TokenInfo string int
  | FetchError

text \<open>
  The resumption: on a response \<open>TokenInfo accessToken expireIn\<close> the closure stores
  the token and \<open>now + expireIn * 1000\<close>, where \<open>now\<close> is the time captured when the
  call started; on an error nothing is stored and the error is thrown.
\<close>

definition getAccessToken_finish ::
    "int \<Rightarrow> fetch_outcome \<Rightarrow> token_cache \<Rightarrow> (unit + string) \<times> token_cache" where
  "getAccessToken_finish now outcome tc =
     (case outcome of
        TokenInfo tok expireIn \<Rightarrow>
          (Inr tok, tc\<lparr>accessToken := Some tok, accessTokenExpiry := now + expireIn * 1000\<rparr>)
      | FetchError \<Rightarrow> (Inl (), tc))"

text \<open>
  Calls that overlap: the cache, the requests in flight (each with the config and
  the time of its call), and two logs: the credentials posted by the requests
  started, and the token handed to each caller, with the caller's \<open>clientId\<close>.
\<close>

record token_sys =
  cache :: token_cache
  fetching :: "nat \<rightharpoonup> DingTalkConfig \<times> int"
  nextFetch :: nat
  posts :: "(string \<times> string) list"
  answers :: "(string \<times> string) list"

definition token_init :: token_sys where
  "token_init = \<lparr>cache = no_token, fetching = Map.empty, nextFetch = 0, posts = [], answers = []\<rparr>"

datatype token_event =
    GetAccessToken DingTalkConfig int
  | FetchSettled nat fetch_outcome

fun token_step :: "token_event \<Rightarrow> token_sys \<Rightarrow> token_sys" where
  "token_step (GetAccessToken config now) sys =
     (case getAccessToken_start config now (cache sys) of
        Cached t \<Rightarrow> sys\<lparr>answers := answers sys @ [(clientId config, t)]\<rparr>
      | Fetch appKey appSecret now' \<Rightarrow>
          sys\<lparr>fetching := (fetching sys)(nextFetch sys \<mapsto> (config, now')),
              nextFetch := Suc (nextFetch sys),
              posts := posts sys @ [(appKey, appSecret)]\<rparr>)"
| "token_step (FetchSettled fid outcome) sys =
     (case fetching sys fid of
        None \<Rightarrow> sys
      | Some (config, now) \<Rightarrow>
          (case getAccessToken_finish now outcome (cache sys) of
             (Inr t, tc) \<Rightarrow>
               sys\<lparr>cache := tc, fetching := (fetching sys)(fid := None),
                   answers := answers sys @ [(clientId config, t)]\<rparr>
           | (Inl _, tc) \<Rightarrow>
               sys\<lparr>cache := tc, fetching := (fetching sys)(fid := None)\<rparr>))"

definition token_run :: "token_event list \<Rightarrow> token_sys \<Rightarrow> token_sys" where
  "token_run es sys = fold token_step es sys"

section \<open>The card registry and the update throttle\<close>

text \<open>
  \<open>cardInstances\<close> is a JavaScript Map that \<open>cleanupCardCache\<close> iterates, so it is
  an association list in insertion order (\<open>AList.update\<close> is \<open>Map.set\<close>,
  \<open>AList.delete\<close> is \<open>Map.delete\<close>). \<open>cardUpdateTimestamps\<close> and
  \<open>cardUpdateTimeouts\<close> are only read and written by key. A timer handle is a
  number; the timers that Node still holds are the map \<open>timers\<close>, and
  \<open>clearTimeout\<close> of a handle that has fired or was cleared changes nothing.

  \<open>updateInteractiveCard\<close> is async and suspends twice. The call is recorded in
  \<open>requests\<close> when it is made; it first awaits \<open>getAccessToken\<close> (the call is then in
  \<open>awaitingToken\<close>), and only when the token is there it builds the request and sends
  the PUT, which is recorded in \<open>puts\<close>; it stays in \<open>inflight\<close> until the environment
  settles it, and the code after its \<open>await\<close> in the caller runs then. Other calls and
  timers may run in between. The \<open>config\<close> and \<open>options\<close> arguments only reach the
  request and the log and are left out.
\<close>

record CardInstance =
  cardBizId :: string
  conversationId :: string
  createdAt :: int
  lastUpdated :: int

definition CARD_UPDATE_MIN_INTERVAL :: int where
  "CARD_UPDATE_MIN_INTERVAL = 500"

definition CARD_UPDATE_TIMEOUT :: int where
  "CARD_UPDATE_TIMEOUT = 60000"

definition CARD_CACHE_TTL :: int where
  "CARD_CACHE_TTL = 60 * 60 * 1000"

text \<open>
  The two kinds of timer callback of \<open>updateInteractiveCardThrottled\<close>: the delayed
  update (with the text and the promise of the call that armed it) and the
  inactivity timeout.
\<close>

datatype callback =
    DelayedUpdate string string nat
  | InactivityTimeout string

record timeout =
  callback :: callback
  due :: int

text \<open>
  Modelled from the spec: \<open>retryWithBackoff\<close> (see above) also wraps the request of
  \<open>updateInteractiveCard\<close>. A call of \<open>updateInteractiveCard\<close> ends in one of three
  ways: \<open>getAccessToken\<close> throws, before the \<open>try\<close> block (\<open>TokenError\<close>); the wrapped
  request throws an error \<open>err\<close>, and \<open>err.response?.status\<close> is a number or undefined
  (\<open>HttpError\<close>); or the request succeeds.
\<close>

datatype error =
    TokenError
  | HttpError "int option"

datatype outcome =
    Succeeded
  | Failed error

datatype settled =
    Pending
  | Resolved
  | Rejected error

text \<open>Who awaits a call of \<open>updateInteractiveCard\<close>.\<close>

datatype caller =
    Immediate nat
  | Delayed nat
  | Direct

record request =
  target :: string
  content :: string
  caller :: caller

record card_state =
  cardInstances :: "(string \<times> CardInstance) list"
  cardUpdateTimestamps :: "string \<rightharpoonup> int"
  cardUpdateTimeouts :: "string \<rightharpoonup> nat"
  timers :: "nat \<rightharpoonup> timeout"
  nextTimer :: nat
  requests :: "(string \<times> string) list"
  inflight :: "nat \<rightharpoonup> request"
  nextRequest :: nat
  promises :: "nat \<rightharpoonup> settled"
  nextPromise :: nat
  awaitingToken :: "nat set"
  puts :: "(string \<times> string) list"

definition init :: card_state where
  "init = \<lparr>cardInstances = [], cardUpdateTimestamps = Map.empty,
            cardUpdateTimeouts = Map.empty, timers = Map.empty, nextTimer = 0,
            requests = [], inflight = Map.empty, nextRequest = 0,
            promises = Map.empty, nextPromise = 0, awaitingToken = {}, puts = []\<rparr>"

definition setTimeout :: "callback \<Rightarrow> int \<Rightarrow> int \<Rightarrow> card_state \<Rightarrow> nat \<times> card_state" where
  "setTimeout cb delay now s =
     (nextTimer s,
      s\<lparr>timers := (timers s)(nextTimer s \<mapsto> \<lparr>callback = cb, due = now + delay\<rparr>),
        nextTimer := Suc (nextTimer s)\<rparr>)"

definition clearTimeout :: "nat \<Rightarrow> card_state \<Rightarrow> card_state" where
  "clearTimeout h s = s\<lparr>timers := (timers s)(h := None)\<rparr>"

text \<open>
  The end of \<open>sendInteractiveCard\<close>, once the card has been sent:
  \<open>cardInstances.set(cardBizId, {..., createdAt: Date.now(), lastUpdated: Date.now()})\<close>.
  The id, \<open>card_\<close> followed by a random UUID in the source, and the two readings of the
  clock are arguments.
\<close>

definition sendInteractiveCard :: "string \<Rightarrow> string \<Rightarrow> int \<Rightarrow> int \<Rightarrow> card_state \<Rightarrow> card_state" where
  "sendInteractiveCard bizId conv created updated s =
     s\<lparr>cardInstances :=
         AList.update bizId
           \<lparr>cardBizId = bizId, conversationId = conv, createdAt = created, lastUpdated = updated\<rparr>
           (cardInstances s)\<rparr>"

text \<open>
  A call of \<open>updateInteractiveCard\<close>, the dispatch of one update, up to its first
  suspension, \<open>await getAccessToken(config, options.log)\<close>.
\<close>

definition updateInteractiveCard_call :: "string \<Rightarrow> string \<Rightarrow> caller \<Rightarrow> card_state \<Rightarrow> card_state" where
  "updateInteractiveCard_call bizId text who s =
     s\<lparr>requests := requests s @ [(bizId, text)],
       inflight := (inflight s)(nextRequest s \<mapsto> \<lparr>target = bizId, content = text, caller = who\<rparr>),
       nextRequest := Suc (nextRequest s),
       awaitingToken := insert (nextRequest s) (awaitingToken s)\<rparr>"

text \<open>
  \<open>getAccessToken\<close> has returned a token to the call \<open>r\<close>: the call builds the card data
  and sends the PUT with its card and text. A call that is not waiting for a token
  sends nothing.
\<close>

definition updateInteractiveCard_put :: "nat \<Rightarrow> card_state \<Rightarrow> card_state" where
  "updateInteractiveCard_put r s =
     (case inflight s r of
        None \<Rightarrow> s
      | Some rq \<Rightarrow>
          if r \<in> awaitingToken s
          then s\<lparr>awaitingToken := awaitingToken s - {r},
                 puts := puts s @ [(target rq, content rq)]\<rparr>
          else s)"

text \<open>
  How \<open>updateInteractiveCard\<close> ends. \<open>Succeeded\<close>: the instance, if it is still
  cached, gets \<open>lastUpdated = Date.now()\<close>. \<open>Failed TokenError\<close>: \<open>getAccessToken\<close>
  threw, before the \<open>try\<close>. \<open>Failed (HttpError st)\<close>: the request threw and
  \<open>err.response?.status\<close> is \<open>st\<close>; the catch block drops the instance on 404, 410
  and 403 and throws the error again.
\<close>

definition updateInteractiveCard_settle ::
    "string \<Rightarrow> outcome \<Rightarrow> int \<Rightarrow> card_state \<Rightarrow> (error + unit) \<times> card_state" where
  "updateInteractiveCard_settle bizId res now s =
     (case res of
        Succeeded \<Rightarrow>
          (Inr (),
           case map_of (cardInstances s) bizId of
             None \<Rightarrow> s
           | Some inst \<Rightarrow>
               s\<lparr>cardInstances := AList.update bizId (inst\<lparr>lastUpdated := now\<rparr>) (cardInstances s)\<rparr>)
      | Failed TokenError \<Rightarrow> (Inl TokenError, s)
      | Failed (HttpError statusCode) \<Rightarrow>
          (Inl (HttpError statusCode),
           if statusCode = Some 404 \<or> statusCode = Some 410 \<or> statusCode = Some 403
           then s\<lparr>cardInstances := AList.delete bizId (cardInstances s)\<rparr>
           else s))"

text \<open>\<open>cardUpdateTimestamps.get(cardBizId) || 0\<close>\<close>

definition lastUpdateOf :: "card_state \<Rightarrow> string \<Rightarrow> int" where
  "lastUpdateOf s bizId = (case cardUpdateTimestamps s bizId of None \<Rightarrow> 0 | Some v \<Rightarrow> v)"

text \<open>\<open>if (existingTimeout) clearTimeout(existingTimeout)\<close>\<close>

definition clearExisting :: "string \<Rightarrow> card_state \<Rightarrow> card_state" where
  "clearExisting bizId s =
     (case cardUpdateTimeouts s bizId of None \<Rightarrow> s | Some h \<Rightarrow> clearTimeout h s)"

text \<open>
  \<open>updateInteractiveCardThrottled\<close> up to its first suspension. The result is the
  promise it returns and the new state.
\<close>

definition updateInteractiveCardThrottled ::
    "string \<Rightarrow> string \<Rightarrow> int \<Rightarrow> card_state \<Rightarrow> nat \<times> card_state" where
  "updateInteractiveCardThrottled bizId text now s =
     (let lastUpdate = lastUpdateOf s bizId;
          timeSinceLastUpdate = now - lastUpdate;
          s1 = clearExisting bizId s;
          p = nextPromise s1;
          s2 = s1\<lparr>promises := (promises s1)(p \<mapsto> Pending), nextPromise := Suc p\<rparr>
      in if timeSinceLastUpdate \<ge> CARD_UPDATE_MIN_INTERVAL then
           (p, updateInteractiveCard_call bizId text (Immediate p)
                 (s2\<lparr>cardUpdateTimestamps := (cardUpdateTimestamps s2)(bizId \<mapsto> now)\<rparr>))
         else
           (let delay = CARD_UPDATE_MIN_INTERVAL - timeSinceLastUpdate;
                (h, s3) = setTimeout (DelayedUpdate bizId text p) delay now s2
            in (p, s3\<lparr>cardUpdateTimeouts := (cardUpdateTimeouts s3)(bizId \<mapsto> h)\<rparr>)))"

text \<open>
  The code after \<open>await updateInteractiveCard(...)\<close>, in the immediate branch and in
  the callback of the delayed branch: on success arm the inactivity timeout, store
  its handle and settle the promise; on an error reject it.
\<close>

fun resume :: "caller \<Rightarrow> string \<Rightarrow> error + unit \<Rightarrow> int \<Rightarrow> card_state \<Rightarrow> card_state" where
  "resume Direct bizId r now s = s"
| "resume (Immediate p) bizId (Inr _) now s =
     (let (h, s1) = setTimeout (InactivityTimeout bizId) CARD_UPDATE_TIMEOUT now s
      in s1\<lparr>cardUpdateTimeouts := (cardUpdateTimeouts s1)(bizId \<mapsto> h),
            promises := (promises s1)(p \<mapsto> Resolved)\<rparr>)"
| "resume (Immediate p) bizId (Inl e) now s = s\<lparr>promises := (promises s)(p \<mapsto> Rejected e)\<rparr>"
| "resume (Delayed p) bizId (Inr _) now s =
     (let (h, s1) = setTimeout (InactivityTimeout bizId) CARD_UPDATE_TIMEOUT now s
      in s1\<lparr>cardUpdateTimeouts := (cardUpdateTimeouts s1)(bizId \<mapsto> h),
            promises := (promises s1)(p \<mapsto> Resolved)\<rparr>)"
| "resume (Delayed p) bizId (Inl e) now s = s\<lparr>promises := (promises s)(p \<mapsto> Rejected e)\<rparr>"

text \<open>
  The call \<open>r\<close> of \<open>updateInteractiveCard\<close> is over. If it ends with a response or an
  error of the request while the model still has it waiting for its token, the token
  has arrived and the PUT has been sent since the last event: the PUT is recorded
  first. A call that ends because \<open>getAccessToken\<close> threw has sent nothing.
\<close>

definition answered :: "nat \<Rightarrow> outcome \<Rightarrow> card_state \<Rightarrow> card_state" where
  "answered r res s =
     (let s0 = (if res = Failed TokenError then s else updateInteractiveCard_put r s)
      in s0\<lparr>inflight := (inflight s0)(r := None), awaitingToken := awaitingToken s0 - {r}\<rparr>)"

text \<open>
  The environment settles the call \<open>r\<close>, and the caller resumes. \<open>getAccessToken\<close>
  cannot throw for a call whose PUT has been sent: that event is ignored.
\<close>

definition settle :: "nat \<Rightarrow> outcome \<Rightarrow> int \<Rightarrow> card_state \<Rightarrow> card_state" where
  "settle r res now s =
     (case inflight s r of
        None \<Rightarrow> s
      | Some rq \<Rightarrow>
          if res = Failed TokenError \<and> r \<notin> awaitingToken s then s
          else
            (let (v, s1) = updateInteractiveCard_settle (target rq) res now (answered r res s)
             in resume (caller rq) (target rq) v now s1))"

text \<open>
  Node runs the callback of a timer it still holds, not before the timer is due.
\<close>

definition fire :: "nat \<Rightarrow> int \<Rightarrow> card_state \<Rightarrow> card_state" where
  "fire h now s =
     (case timers s h of
        None \<Rightarrow> s
      | Some t \<Rightarrow>
          if now < due t then s
          else
            (let s1 = s\<lparr>timers := (timers s)(h := None)\<rparr>
             in case callback t of
                  InactivityTimeout bizId \<Rightarrow>
                    s1\<lparr>cardUpdateTimeouts := (cardUpdateTimeouts s1)(bizId := None)\<rparr>
                | DelayedUpdate bizId text p \<Rightarrow>
                    updateInteractiveCard_call bizId text (Delayed p)
                      (s1\<lparr>cardUpdateTimestamps := (cardUpdateTimestamps s1)(bizId \<mapsto> now)\<rparr>)))"

text \<open>The test of \<open>cleanupCardCache\<close>: \<open>now - instance.lastUpdated > CARD_CACHE_TTL\<close>.\<close>

definition expired :: "int \<Rightarrow> CardInstance \<Rightarrow> bool" where
  "expired now inst = (now - lastUpdated inst > CARD_CACHE_TTL)"

text \<open>
  The body of the loop of \<open>cleanupCardCache\<close>, for one entry of the Map: the
  instance and the timestamp are deleted, then the timeout registered for the card,
  if there is one, is cleared and its entry deleted.
\<close>

definition cleanup_entry :: "int \<Rightarrow> string \<times> CardInstance \<Rightarrow> card_state \<Rightarrow> card_state" where
  "cleanup_entry now e s =
     (if expired now (snd e) then
        (let s1 = s\<lparr>cardInstances := AList.delete (fst e) (cardInstances s),
                    cardUpdateTimestamps := (cardUpdateTimestamps s)(fst e := None)\<rparr>
         in case cardUpdateTimeouts s1 (fst e) of
              None \<Rightarrow> s1
            | Some h \<Rightarrow>
                (clearTimeout h s1)\<lparr>cardUpdateTimeouts := (cardUpdateTimeouts s1)(fst e := None)\<rparr>)
      else s)"

definition cleanupCardCache :: "int \<Rightarrow> card_state \<Rightarrow> card_state" where
  "cleanupCardCache now s = fold (cleanup_entry now) (cardInstances s) s"

text \<open>
  What can happen to the module, one event at a time: a card has been sent, an update
  is called directly (as \<open>sendMessage\<close> does) or through the throttle, Node runs a
  timer, a call of \<open>updateInteractiveCard\<close> gets its token and sends its PUT, a call of
  \<open>updateInteractiveCard\<close> settles, the periodic sweep runs. Every time
  is the value of \<open>Date.now()\<close> at that moment. The shutdown of the module
  (\<open>stopCardCacheCleanup\<close>) is not among the events.
\<close>

datatype event =
    SendCard string string int int
  | UpdateDirect string string
  | UpdateThrottled string string int
  | Fire nat int
  | Settle nat outcome int
  | Cleanup int
  | Put nat

fun step :: "event \<Rightarrow> card_state \<Rightarrow> card_state" where
  "step (SendCard bizId conv created updated) s = sendInteractiveCard bizId conv created updated s"
| "step (UpdateDirect bizId text) s = updateInteractiveCard_call bizId text Direct s"
| "step (UpdateThrottled bizId text now) s = snd (updateInteractiveCardThrottled bizId text now s)"
| "step (Fire h now) s = fire h now s"
| "step (Settle r res now) s = settle r res now s"
| "step (Cleanup now) s = cleanupCardCache now s"
| "step (Put r) s = updateInteractiveCard_put r s"

definition run :: "event list \<Rightarrow> card_state \<Rightarrow> card_state" where
  "run es s = fold step es s"

section \<open>Notions used in the statements\<close>

text \<open>The keys that a run of the loop of \<open>cleanupCardCache\<close> over the entries \<open>xs\<close> evicts.\<close>

definition evicted :: "int \<Rightarrow> (string \<times> CardInstance) list \<Rightarrow> string set" where
  "evicted now xs = fst ` set (filter (\<lambda>e. expired now (snd e)) xs)"

text \<open>The card that a timer callback works on.\<close>

fun card_of :: "callback \<Rightarrow> string" where
  "card_of (DelayedUpdate bizId text p) = bizId"
| "card_of (InactivityTimeout bizId) = bizId"

text \<open>
  What holds in every state the module can reach: the keys of \<open>cardInstances\<close> are
  distinct, as in a Map, and every handle in use was handed out by \<open>setTimeout\<close>.
\<close>

definition wellformed :: "card_state \<Rightarrow> bool" where
  "wellformed s \<longleftrightarrow>
     distinct (map fst (cardInstances s))
     \<and> (\<forall>k h. cardUpdateTimeouts s k = Some h \<longrightarrow> h < nextTimer s)
     \<and> (\<forall>h t. timers s h = Some t \<longrightarrow> h < nextTimer s)"

text \<open>
  Every delayed update of the card that Node still holds is the one whose handle
  \<open>cardUpdateTimeouts\<close> stores for the card.
\<close>

definition tracked :: "string \<Rightarrow> card_state \<Rightarrow> bool" where
  "tracked bizId s \<longleftrightarrow>
     (\<forall>h x p d. timers s h = Some \<lparr>callback = DelayedUpdate bizId x p, due = d\<rparr>
        \<longrightarrow> cardUpdateTimeouts s bizId = Some h)"

text \<open>
  A sequence of calls \<open>updateInteractiveCardThrottled(config, bizId, text)\<close> for one card,
  each given as the time of the call and its text, with nothing else in between.
\<close>

definition burst :: "string \<Rightarrow> (int \<times> string) list \<Rightarrow> event list" where
  "burst bizId calls = map (\<lambda>c. UpdateThrottled bizId (snd c) (fst c)) calls"

text \<open>
  The promise \<open>p\<close> is pending and cannot be settled any more: no timer that Node
  holds and no request in flight belongs to it.
\<close>

definition abandoned :: "nat \<Rightarrow> card_state \<Rightarrow> bool" where
  "abandoned p s \<longleftrightarrow>
     promises s p = Some Pending \<and> p < nextPromise s
     \<and> (\<forall>h t b x. timers s h = Some t \<longrightarrow> callback t \<noteq> DelayedUpdate b x p)
     \<and> (\<forall>r rq. inflight s r = Some rq \<longrightarrow> caller rq \<noteq> Immediate p \<and> caller rq \<noteq> Delayed p)"

text \<open>The promise \<open>p\<close> is pending and only the timer \<open>h\<close> can lead to its settling.\<close>

definition waiting :: "nat \<Rightarrow> nat \<Rightarrow> card_state \<Rightarrow> bool" where
  "waiting p h s \<longleftrightarrow>
     promises s p = Some Pending \<and> p < nextPromise s
     \<and> (\<forall>h' t b x. timers s h' = Some t \<and> callback t = DelayedUpdate b x p \<longrightarrow> h' = h)
     \<and> (\<forall>r rq. inflight s r = Some rq \<longrightarrow> caller rq \<noteq> Immediate p \<and> caller rq \<noteq> Delayed p)"

text \<open>Timers and requests only refer to promises that have been created.\<close>

definition promises_known :: "card_state \<Rightarrow> bool" where
  "promises_known s \<longleftrightarrow>
     (\<forall>h t b x p. timers s h = Some t \<and> callback t = DelayedUpdate b x p \<longrightarrow> p < nextPromise s)
     \<and> (\<forall>r rq p. inflight s r = Some rq \<and> (caller rq = Immediate p \<or> caller rq = Delayed p)
           \<longrightarrow> p < nextPromise s)"

section \<open>Concrete inputs\<close>

text \<open>Two application identities.\<close>

definition appA :: DingTalkConfig where
  "appA = \<lparr>clientId = ''appA'', clientSecret = ''secretA''\<rparr>"

definition appB :: DingTalkConfig where
  "appB = \<lparr>clientId = ''appB'', clientSecret = ''secretB''\<rparr>"

text \<open>The cache after the token of \<open>appA\<close> has been fetched and stored.\<close>

definition cachedA :: token_sys where
  "cachedA = token_run [GetAccessToken appA 1000, FetchSettled 0 (TokenInfo ''tokA'' 7200)] token_init"

text \<open>A card that was sent at 10 and whose first throttled update, made at 1000, is in flight.\<close>

definition oneCard :: card_state where
  "oneCard = run [SendCard ''c1'' ''conv'' 10 10, UpdateThrottled ''c1'' ''x'' 1000] init"

text \<open>
  A card is sent, updated once at 1000 (the update succeeds at 1100, which arms the
  inactivity timeout, handle 0, for 61100), and left alone until that timeout fires.
\<close>

definition idle :: "event list" where
  "idle = [SendCard ''c1'' ''conv'' 10 10, UpdateThrottled ''c1'' ''a'' 1000,
           Settle 0 Succeeded 1100, Fire 0 61100]"

text \<open>
  Two cards; the first was last updated at 10, the second at 3000000. An update of the
  first is dispatched at 3600000 and is still in flight when a second update, at
  3600100, arms a delayed update (handle 0, due at 3600500).
\<close>

definition sweepable :: "event list" where
  "sweepable = [SendCard ''c1'' ''conv'' 10 10, SendCard ''c2'' ''conv'' 3000000 3000000,
                UpdateThrottled ''c1'' ''a'' 3600000, UpdateThrottled ''c1'' ''b'' 3600100]"

text \<open>A card is sent and updated once; the update fails with status 404.\<close>

definition gone404 :: "event list" where
  "gone404 = [SendCard ''c1'' ''conv'' 10 10, UpdateThrottled ''c1'' ''a'' 1000,
              Settle 0 (Failed (HttpError (Some 404))) 1100]"

text \<open>
  Two calls 100 ms apart for a card that was never updated: the first is dispatched
  at once, the second arms a delayed update (handle 0), which fires at 1500.
\<close>

definition firstBurst :: "event list" where
  "firstBurst = [UpdateThrottled ''t1'' ''a'' 1000, UpdateThrottled ''t1'' ''b'' 1100, Fire 0 1500]"

text \<open>
  Three calls, at 1000, 1100 and 1300. The first is dispatched at once and succeeds at
  1200, between the second and the third call. The second arms the delayed update with
  handle 0; the success of the first arms the inactivity timeout with handle 1 and
  stores that handle for the card; the third arms the delayed update with handle 2.
\<close>

definition overtaken :: "event list" where
  "overtaken = [UpdateThrottled ''t1'' ''a'' 1000, UpdateThrottled ''t1'' ''b'' 1100,
                Settle 0 Succeeded 1200, UpdateThrottled ''t1'' ''c'' 1300]"

text \<open>
  Two calls 500 ms apart for a card that was never updated, so both are dispatched at
  once. Each call fetches a token of its own; the token of the second call arrives
  first, so the PUT of the second call leaves before the PUT of the first.
\<close>

definition outOfOrder :: "event list" where
  "outOfOrder = [UpdateThrottled ''c1'' ''a'' 1000, UpdateThrottled ''c1'' ''b'' 1500, Put 1, Put 0]"

text \<open>The same two calls; \<open>getAccessToken\<close> throws for the first, which sends nothing.\<close>

definition tokenLost :: "event list" where
  "tokenLost = [UpdateThrottled ''c1'' ''a'' 1000, Settle 0 (Failed TokenError) 1100,
                UpdateThrottled ''c1'' ''b'' 1500, Put 1]"

section \<open>Properties of the access token cache\<close>

lemma token_step_fetch:
  "\<forall>t. getAccessToken_start config now (cache sys) \<noteq> Cached t \<Longrightarrow>
   token_step (GetAccessToken config now) sys =
     sys\<lparr>fetching := (fetching sys)(nextFetch sys \<mapsto> (config, now)),
         nextFetch := Suc (nextFetch sys),
         posts := posts sys @ [(clientId config, clientSecret config)]\<rparr>"
  by (auto simp: getAccessToken_start_def split: option.splits if_splits)

lemma token_step_cached:
  "getAccessToken_start config now (cache sys) = Cached t \<Longrightarrow>
   token_step (GetAccessToken config now) sys = sys\<lparr>answers := answers sys @ [(clientId config, t)]\<rparr>"
  by simp

text \<open>
  C2, as stated, fails: two calls for the same identity, the second made while the
  request of the first is still in flight, post the credentials twice.
\<close>

theorem getAccessToken_single_flight_counterexample:
  "posts (token_run [GetAccessToken appA 1000, GetAccessToken appA 1001] token_init)
     = [(''appA'', ''secretA''), (''appA'', ''secretA'')]
   \<and> length (posts (token_run [GetAccessToken appA 1000, GetAccessToken appA 1001] token_init)) \<noteq> 1"
  by (simp add: token_run_def token_init_def no_token_def appA_def getAccessToken_start_def)

text \<open>
  C2, amended: \<open>getAccessToken\<close> has no record of a request in flight. Every call
  made while there is no valid cached token starts a request of its own: N such
  calls made before any request settles post the credentials N times, and leave
  the cache as it was.
\<close>

theorem getAccessToken_fetch_per_call:
  assumes "\<forall>now \<in> set nows. \<forall>t. getAccessToken_start config now (cache sys) \<noteq> Cached t"
  shows "posts (token_run (map (GetAccessToken config) nows) sys)
           = posts sys @ replicate (length nows) (clientId config, clientSecret config)
         \<and> cache (token_run (map (GetAccessToken config) nows) sys) = cache sys"
  using assms
proof (induction nows arbitrary: sys)
  case Nil
  then show ?case by (simp add: token_run_def)
next
  case (Cons now nows)
  let ?sys1 = "token_step (GetAccessToken config now) sys"
  have miss: "\<forall>t. getAccessToken_start config now (cache sys) \<noteq> Cached t"
    using Cons.prems by simp
  have s1: "cache ?sys1 = cache sys"
    "posts ?sys1 = posts sys @ [(clientId config, clientSecret config)]"
    using token_step_fetch [OF miss] by simp_all
  have "\<forall>now \<in> set nows. \<forall>t. getAccessToken_start config now (cache ?sys1) \<noteq> Cached t"
    using Cons.prems s1(1) by simp
  from Cons.IH [OF this] show ?case
    using s1 by (simp add: token_run_def replicate_append_same)
qed

theorem getAccessToken_fetch_per_call_witness:
  "getAccessToken_start appA 1000 (cache token_init) = Fetch ''appA'' ''secretA'' 1000
   \<and> getAccessToken_start appA 1001 (cache token_init) = Fetch ''appA'' ''secretA'' 1001
   \<and> getAccessToken_start appA 1002 (cache token_init) = Fetch ''appA'' ''secretA'' 1002
   \<and> posts (token_run (map (GetAccessToken appA) [1000, 1001, 1002]) token_init)
       = [(''appA'', ''secretA''), (''appA'', ''secretA''), (''appA'', ''secretA'')]"
proof -
  have h: "\<forall>now \<in> set [1000, 1001, 1002]. \<forall>t. getAccessToken_start appA now (cache token_init) \<noteq> Cached t"
    by (simp add: getAccessToken_start_def token_init_def no_token_def)
  have "posts (token_run (map (GetAccessToken appA) [1000, 1001, 1002]) token_init)
       = [(''appA'', ''secretA''), (''appA'', ''secretA''), (''appA'', ''secretA'')]"
    using getAccessToken_fetch_per_call [OF h]
    by (simp add: token_init_def appA_def numeral_3_eq_3)
  then show ?thesis
    by (simp add: getAccessToken_start_def token_init_def no_token_def appA_def)
qed

text \<open>
  C3, as stated, fails in its last sentence: a token that has just been fetched is
  returned whatever its lifetime. Here the call is made at 1000 with an empty cache
  and the response says \<open>expireIn = 30\<close>: the token is returned, and it expires at
  31000, less than 60000 ms after the call, so also less than 60000 ms after any later
  moment of return.
\<close>

theorem getAccessToken_margin_counterexample:
  "getAccessToken_start appA 1000 no_token = Fetch ''appA'' ''secretA'' 1000
   \<and> fst (getAccessToken_finish 1000 (TokenInfo ''tok'' 30) no_token) = Inr ''tok''
   \<and> accessTokenExpiry (snd (getAccessToken_finish 1000 (TokenInfo ''tok'' 30) no_token)) = 31000
   \<and> \<not> accessTokenExpiry (snd (getAccessToken_finish 1000 (TokenInfo ''tok'' 30) no_token))
         \<ge> 1000 + TOKEN_MARGIN"
  by (simp add: getAccessToken_start_def getAccessToken_finish_def no_token_def appA_def
      TOKEN_MARGIN_def)

text \<open>
  C3, amended: if a non-empty cached token exists and the current time plus 60000 is
  strictly before its expiry, the call returns the cached token, starts no request,
  leaves the cache as it is, and the token returned is valid for more than 60000 ms
  past that moment. Otherwise the call starts a request. When the request succeeds,
  the token of the response is stored and returned with the expiry (time of the
  call) + expireIn * 1000, with no check of how long it remains valid.
\<close>

theorem getAccessToken_cached_or_fetched:
  "(accessToken (cache sys) = Some t \<and> t \<noteq> [] \<and> now + TOKEN_MARGIN < accessTokenExpiry (cache sys)
      \<longrightarrow> getAccessToken_start config now (cache sys) = Cached t
        \<and> token_step (GetAccessToken config now) sys
            = sys\<lparr>answers := answers sys @ [(clientId config, t)]\<rparr>)
   \<and> (getAccessToken_start config now (cache sys) = Cached t
      \<longrightarrow> accessToken (cache sys) = Some t \<and> now + TOKEN_MARGIN < accessTokenExpiry (cache sys))
   \<and> (\<not> (\<exists>t'. accessToken (cache sys) = Some t' \<and> t' \<noteq> []
              \<and> now + TOKEN_MARGIN < accessTokenExpiry (cache sys))
      \<longrightarrow> getAccessToken_start config now (cache sys)
            = Fetch (clientId config) (clientSecret config) now
        \<and> posts (token_step (GetAccessToken config now) sys)
            = posts sys @ [(clientId config, clientSecret config)])
   \<and> getAccessToken_finish now (TokenInfo tok expireIn) (cache sys)
       = (Inr tok, (cache sys)\<lparr>accessToken := Some tok, accessTokenExpiry := now + expireIn * 1000\<rparr>)
   \<and> getAccessToken_finish now FetchError (cache sys) = (Inl (), cache sys)"
  by (auto simp: getAccessToken_start_def getAccessToken_finish_def split: option.splits if_splits)

lemma cachedA_cache: "cache cachedA = \<lparr>accessToken = Some ''tokA'', accessTokenExpiry = 7201000\<rparr>"
  by (simp add: cachedA_def token_run_def token_init_def no_token_def appA_def
      getAccessToken_start_def getAccessToken_finish_def)

lemma cachedA_posts: "posts cachedA = [(''appA'', ''secretA'')]"
  by (simp add: cachedA_def token_run_def token_init_def no_token_def appA_def
      getAccessToken_start_def getAccessToken_finish_def)

theorem getAccessToken_cached_or_fetched_witness:
  "accessToken (cache cachedA) = Some ''tokA'' \<and> ''tokA'' \<noteq> []
   \<and> 2000 + TOKEN_MARGIN < accessTokenExpiry (cache cachedA)
   \<and> getAccessToken_start appA 2000 (cache cachedA) = Cached ''tokA''
   \<and> posts (token_step (GetAccessToken appA 2000) cachedA) = posts cachedA
   \<and> \<not> (\<exists>t'. accessToken (cache token_init) = Some t' \<and> t' \<noteq> []
            \<and> 1000 + TOKEN_MARGIN < accessTokenExpiry (cache token_init))
   \<and> getAccessToken_start appA 1000 (cache token_init) = Fetch ''appA'' ''secretA'' 1000
   \<and> posts (token_step (GetAccessToken appA 1000) token_init) = [(''appA'', ''secretA'')]"
proof -
  have a: "accessToken (cache cachedA) = Some ''tokA'' \<and> ''tokA'' \<noteq> []
      \<and> 2000 + TOKEN_MARGIN < accessTokenExpiry (cache cachedA)"
    by (simp add: cachedA_cache TOKEN_MARGIN_def)
  have b: "\<not> (\<exists>t'. accessToken (cache token_init) = Some t' \<and> t' \<noteq> []
            \<and> 1000 + TOKEN_MARGIN < accessTokenExpiry (cache token_init))"
    by (simp add: token_init_def no_token_def)
  from a b
    getAccessToken_cached_or_fetched [of cachedA "''tokA''" 2000 appA]
    getAccessToken_cached_or_fetched [of token_init "''tokA''" 1000 appA]
  show ?thesis
    by (simp add: appA_def token_init_def)
qed

text \<open>
  C6, as stated, fails: the cache is one pair of variables, not a table keyed by
  identity. After the token of \<open>appA\<close> has been fetched and stored, a call for
  \<open>appB\<close> is answered with it, and nothing is posted for \<open>appB\<close>.
\<close>

theorem getAccessToken_identity_counterexample:
  "clientId appA \<noteq> clientId appB
   \<and> answers (token_run [GetAccessToken appA 1000, FetchSettled 0 (TokenInfo ''tokA'' 7200),
                          GetAccessToken appB 2000] token_init)
       = [(''appA'', ''tokA''), (''appB'', ''tokA'')]
   \<and> posts (token_run [GetAccessToken appA 1000, FetchSettled 0 (TokenInfo ''tokA'' 7200),
                        GetAccessToken appB 2000] token_init)
       = [(''appA'', ''secretA'')]"
  by (simp add: token_run_def token_init_def no_token_def appA_def appB_def
      getAccessToken_start_def getAccessToken_finish_def TOKEN_MARGIN_def)

text \<open>
  C6, amended: the cache holds one credential for the whole process, whichever
  identity it was fetched for. Whether a call is answered from the cache, and with
  which token, does not depend on the config of the call: when a call for one
  config is answered from the cache, a call for any other config at the same
  moment is answered with the same token.
\<close>

theorem getAccessToken_ignores_identity:
  "getAccessToken_start config now tc = Cached t \<Longrightarrow>
   getAccessToken_start config' now tc = Cached t"
  by (auto simp: getAccessToken_start_def split: option.splits if_splits)

theorem getAccessToken_ignores_identity_witness:
  "getAccessToken_start appA 2000 (cache cachedA) = Cached ''tokA''
   \<and> getAccessToken_start appB 2000 (cache cachedA) = Cached ''tokA''"
proof -
  have a: "getAccessToken_start appA 2000 (cache cachedA) = Cached ''tokA''"
    by (simp add: cachedA_cache getAccessToken_start_def TOKEN_MARGIN_def)
  from a getAccessToken_ignores_identity [OF a, of appB] show ?thesis by simp
qed

section \<open>Properties of the registry and the throttle\<close>

subsection \<open>What each function changes\<close>

lemma clearExisting_fields [simp]:
  "cardInstances (clearExisting bizId s) = cardInstances s"
  "cardUpdateTimestamps (clearExisting bizId s) = cardUpdateTimestamps s"
  "cardUpdateTimeouts (clearExisting bizId s) = cardUpdateTimeouts s"
  "nextTimer (clearExisting bizId s) = nextTimer s"
  "requests (clearExisting bizId s) = requests s"
  "inflight (clearExisting bizId s) = inflight s"
  "nextRequest (clearExisting bizId s) = nextRequest s"
  "promises (clearExisting bizId s) = promises s"
  "nextPromise (clearExisting bizId s) = nextPromise s"
  "awaitingToken (clearExisting bizId s) = awaitingToken s"
  "puts (clearExisting bizId s) = puts s"
  by (simp_all add: clearExisting_def clearTimeout_def split: option.splits)

lemma clearExisting_timers:
  "timers (clearExisting bizId s) h =
     (if cardUpdateTimeouts s bizId = Some h then None else timers s h)"
  by (simp add: clearExisting_def clearTimeout_def split: option.splits)

lemma throttled_immediate:
  assumes "CARD_UPDATE_MIN_INTERVAL \<le> now - lastUpdateOf s bizId"
  shows "updateInteractiveCardThrottled bizId text now s =
    (nextPromise s,
     (clearExisting bizId s)
       \<lparr>cardUpdateTimestamps := (cardUpdateTimestamps s)(bizId \<mapsto> now),
        requests := requests s @ [(bizId, text)],
        inflight := (inflight s)(nextRequest s \<mapsto>
                      \<lparr>target = bizId, content = text, caller = Immediate (nextPromise s)\<rparr>),
        nextRequest := Suc (nextRequest s),
        awaitingToken := insert (nextRequest s) (awaitingToken s),
        promises := (promises s)(nextPromise s \<mapsto> Pending),
        nextPromise := Suc (nextPromise s)\<rparr>)"
  using assms
  by (simp add: updateInteractiveCardThrottled_def updateInteractiveCard_call_def Let_def)

lemma throttled_delayed:
  assumes "now - lastUpdateOf s bizId < CARD_UPDATE_MIN_INTERVAL"
  shows "updateInteractiveCardThrottled bizId text now s =
    (nextPromise s,
     (clearExisting bizId s)
       \<lparr>cardUpdateTimeouts := (cardUpdateTimeouts s)(bizId \<mapsto> nextTimer s),
        timers := (timers (clearExisting bizId s))(nextTimer s \<mapsto>
                    \<lparr>callback = DelayedUpdate bizId text (nextPromise s),
                     due = now + (CARD_UPDATE_MIN_INTERVAL - (now - lastUpdateOf s bizId))\<rparr>),
        nextTimer := Suc (nextTimer s),
        promises := (promises s)(nextPromise s \<mapsto> Pending),
        nextPromise := Suc (nextPromise s)\<rparr>)"
  using assms
  by (simp add: updateInteractiveCardThrottled_def setTimeout_def Let_def)

lemma settle_card_fields [simp]:
  "cardUpdateTimestamps (snd (updateInteractiveCard_settle bizId res now s)) = cardUpdateTimestamps s"
  "cardUpdateTimeouts (snd (updateInteractiveCard_settle bizId res now s)) = cardUpdateTimeouts s"
  "timers (snd (updateInteractiveCard_settle bizId res now s)) = timers s"
  "nextTimer (snd (updateInteractiveCard_settle bizId res now s)) = nextTimer s"
  "requests (snd (updateInteractiveCard_settle bizId res now s)) = requests s"
  "inflight (snd (updateInteractiveCard_settle bizId res now s)) = inflight s"
  "nextRequest (snd (updateInteractiveCard_settle bizId res now s)) = nextRequest s"
  "promises (snd (updateInteractiveCard_settle bizId res now s)) = promises s"
  "nextPromise (snd (updateInteractiveCard_settle bizId res now s)) = nextPromise s"
  "awaitingToken (snd (updateInteractiveCard_settle bizId res now s)) = awaitingToken s"
  "puts (snd (updateInteractiveCard_settle bizId res now s)) = puts s"
  by (simp_all add: updateInteractiveCard_settle_def
      split: outcome.splits error.splits option.splits)

lemma resume_fields [simp]:
  "cardInstances (resume who bizId v now s) = cardInstances s"
  "cardUpdateTimestamps (resume who bizId v now s) = cardUpdateTimestamps s"
  "requests (resume who bizId v now s) = requests s"
  "inflight (resume who bizId v now s) = inflight s"
  "nextRequest (resume who bizId v now s) = nextRequest s"
  "nextPromise (resume who bizId v now s) = nextPromise s"
  "awaitingToken (resume who bizId v now s) = awaitingToken s"
  "puts (resume who bizId v now s) = puts s"
  by (induction who bizId v now s rule: resume.induct; simp add: setTimeout_def)+

lemma put_fields [simp]:
  "cardInstances (updateInteractiveCard_put r s) = cardInstances s"
  "cardUpdateTimestamps (updateInteractiveCard_put r s) = cardUpdateTimestamps s"
  "cardUpdateTimeouts (updateInteractiveCard_put r s) = cardUpdateTimeouts s"
  "timers (updateInteractiveCard_put r s) = timers s"
  "nextTimer (updateInteractiveCard_put r s) = nextTimer s"
  "requests (updateInteractiveCard_put r s) = requests s"
  "inflight (updateInteractiveCard_put r s) = inflight s"
  "nextRequest (updateInteractiveCard_put r s) = nextRequest s"
  "promises (updateInteractiveCard_put r s) = promises s"
  "nextPromise (updateInteractiveCard_put r s) = nextPromise s"
  by (simp_all add: updateInteractiveCard_put_def split: option.splits)

lemma answered_fields [simp]:
  "cardInstances (answered r res s) = cardInstances s"
  "cardUpdateTimestamps (answered r res s) = cardUpdateTimestamps s"
  "cardUpdateTimeouts (answered r res s) = cardUpdateTimeouts s"
  "timers (answered r res s) = timers s"
  "nextTimer (answered r res s) = nextTimer s"
  "requests (answered r res s) = requests s"
  "inflight (answered r res s) = (inflight s)(r := None)"
  "nextRequest (answered r res s) = nextRequest s"
  "promises (answered r res s) = promises s"
  "nextPromise (answered r res s) = nextPromise s"
  by (simp_all add: answered_def Let_def)

text \<open>A settling either is ignored or resumes the caller of the call.\<close>

lemma settle_idle:
  "inflight s r = None \<or> (res = Failed TokenError \<and> r \<notin> awaitingToken s) \<Longrightarrow>
   settle r res now s = s"
  by (auto simp: settle_def split: option.splits)

lemma settle_unfold:
  "inflight s r = Some rq \<Longrightarrow> \<not> (res = Failed TokenError \<and> r \<notin> awaitingToken s) \<Longrightarrow>
   settle r res now s =
     resume (caller rq) (target rq)
       (fst (updateInteractiveCard_settle (target rq) res now (answered r res s)))
       now
       (snd (updateInteractiveCard_settle (target rq) res now (answered r res s)))"
  by (auto simp: settle_def Let_def split_beta)

lemma settle_cases:
  obtains "settle r res now s = s"
  | rq where "inflight s r = Some rq"
      "settle r res now s =
         resume (caller rq) (target rq)
           (fst (updateInteractiveCard_settle (target rq) res now (answered r res s)))
           now
           (snd (updateInteractiveCard_settle (target rq) res now (answered r res s)))"
proof (cases "inflight s r = None \<or> (res = Failed TokenError \<and> r \<notin> awaitingToken s)")
  case True
  then show ?thesis using that(1) settle_idle by blast
next
  case False
  then obtain rq where "inflight s r = Some rq" by auto
  with False show ?thesis using that(2) settle_unfold by blast
qed

lemma settle_fields [simp]:
  "requests (settle r res now s) = requests s"
  "cardUpdateTimestamps (settle r res now s) = cardUpdateTimestamps s"
  "nextRequest (settle r res now s) = nextRequest s"
  "nextPromise (settle r res now s) = nextPromise s"
  by (cases rule: settle_cases [of r res now s]; simp)+

lemmas card_defs =
  run_def init_def updateInteractiveCardThrottled_def updateInteractiveCard_call_def
  updateInteractiveCard_settle_def settle_def fire_def setTimeout_def clearTimeout_def
  updateInteractiveCard_put_def answered_def
  clearExisting_def lastUpdateOf_def sendInteractiveCard_def cleanupCardCache_def
  cleanup_entry_def expired_def CARD_UPDATE_MIN_INTERVAL_def CARD_UPDATE_TIMEOUT_def CARD_CACHE_TTL_def
  Let_def

subsection \<open>A failed update\<close>

lemma settle_rejects:
  "inflight s r = Some rq \<Longrightarrow> caller rq = Immediate p \<or> caller rq = Delayed p \<Longrightarrow>
   promises (settle r (Failed (HttpError st)) now s) p = Some (Rejected (HttpError st))"
  by (auto simp: settle_unfold updateInteractiveCard_settle_def)

text \<open>
  C5: when the request of \<open>updateInteractiveCard\<close> fails with status 404, 410 or 403,
  the catch block deletes the card from \<open>cardInstances\<close> (every other record stays as
  it is) and throws the error again; with any other status, or none, the state is
  left exactly as it was, so the record is neither removed nor touched, and the error
  is thrown again. In both cases the promise of a throttled call that awaits the
  update is rejected with that error.
\<close>

theorem updateInteractiveCard_failure:
  "(statusCode = Some 404 \<or> statusCode = Some 410 \<or> statusCode = Some 403 \<longrightarrow>
      updateInteractiveCard_settle bizId (Failed (HttpError statusCode)) now s
        = (Inl (HttpError statusCode), s\<lparr>cardInstances := AList.delete bizId (cardInstances s)\<rparr>)
      \<and> map_of (cardInstances (snd (updateInteractiveCard_settle bizId
                  (Failed (HttpError statusCode)) now s))) bizId = None
      \<and> (\<forall>k. k \<noteq> bizId \<longrightarrow>
            map_of (cardInstances (snd (updateInteractiveCard_settle bizId
                  (Failed (HttpError statusCode)) now s))) k = map_of (cardInstances s) k))
   \<and> (statusCode \<noteq> Some 404 \<and> statusCode \<noteq> Some 410 \<and> statusCode \<noteq> Some 403 \<longrightarrow>
      updateInteractiveCard_settle bizId (Failed (HttpError statusCode)) now s
        = (Inl (HttpError statusCode), s))
   \<and> (inflight s r = Some rq \<and> (caller rq = Immediate p \<or> caller rq = Delayed p) \<longrightarrow>
      promises (settle r (Failed (HttpError statusCode)) now s) p
        = Some (Rejected (HttpError statusCode)))"
  by (auto simp: updateInteractiveCard_settle_def AList.delete_conv' settle_rejects)

text \<open>C5 at a concrete input: the update of \<open>oneCard\<close> fails with 404, and with 500.\<close>

theorem updateInteractiveCard_failure_witness:
  "map_of (cardInstances oneCard) ''c1''
     = Some \<lparr>cardBizId = ''c1'', conversationId = ''conv'', createdAt = 10, lastUpdated = 10\<rparr>
   \<and> inflight oneCard 0 = Some \<lparr>target = ''c1'', content = ''x'', caller = Immediate 0\<rparr>
   \<and> fst (updateInteractiveCard_settle ''c1'' (Failed (HttpError (Some 404))) 1200 oneCard)
       = Inl (HttpError (Some 404))
   \<and> cardInstances (snd (updateInteractiveCard_settle ''c1'' (Failed (HttpError (Some 404))) 1200 oneCard))
       = []
   \<and> promises (settle 0 (Failed (HttpError (Some 404))) 1200 oneCard) 0
       = Some (Rejected (HttpError (Some 404)))
   \<and> updateInteractiveCard_settle ''c1'' (Failed (HttpError (Some 500))) 1200 oneCard
       = (Inl (HttpError (Some 500)), oneCard)
   \<and> promises (settle 0 (Failed (HttpError (Some 500))) 1200 oneCard) 0
       = Some (Rejected (HttpError (Some 500)))"
proof -
  have i: "inflight oneCard 0 = Some \<lparr>target = ''c1'', content = ''x'', caller = Immediate 0\<rparr>"
    by (simp add: oneCard_def card_defs)
  have c: "cardInstances oneCard
     = [(''c1'', \<lparr>cardBizId = ''c1'', conversationId = ''conv'', createdAt = 10, lastUpdated = 10\<rparr>)]"
    by (simp add: oneCard_def card_defs)
  from i c
    updateInteractiveCard_failure [where statusCode = "Some 404" and bizId = "''c1''"
      and now = 1200 and s = oneCard and r = 0 and p = 0
      and rq = "\<lparr>target = ''c1'', content = ''x'', caller = Immediate 0\<rparr>"]
    updateInteractiveCard_failure [where statusCode = "Some 500" and bizId = "''c1''"
      and now = 1200 and s = oneCard and r = 0 and p = 0
      and rq = "\<lparr>target = ''c1'', content = ''x'', caller = Immediate 0\<rparr>"]
  show ?thesis
    by simp
qed

subsection \<open>Immediate and delayed dispatch\<close>

lemma run_Cons [simp]: "run (e # es) s = run es (step e s)"
  by (simp add: run_def)

lemma run_Nil [simp]: "run [] s = s"
  by (simp add: run_def)

lemma run_append [simp]: "run (es @ es') s = run es' (run es s)"
  by (simp add: run_def)

lemma run_settles:
  "requests (run (map (\<lambda>(r, res, t). Settle r res t) ss) s) = requests s
   \<and> cardUpdateTimestamps (run (map (\<lambda>(r, res, t). Settle r res t) ss) s) = cardUpdateTimestamps s"
  by (induction ss arbitrary: s) (auto simp: split_beta)

lemma fire_delayed:
  "timers s h = Some \<lparr>callback = DelayedUpdate bizId text p, due = d\<rparr> \<Longrightarrow> d \<le> now \<Longrightarrow>
   fire h now s =
     s\<lparr>timers := (timers s)(h := None),
       cardUpdateTimestamps := (cardUpdateTimestamps s)(bizId \<mapsto> now),
       requests := requests s @ [(bizId, text)],
       inflight := (inflight s)(nextRequest s \<mapsto> \<lparr>target = bizId, content = text, caller = Delayed p\<rparr>),
       nextRequest := Suc (nextRequest s),
       awaitingToken := insert (nextRequest s) (awaitingToken s)\<rparr>"
  by (simp add: fire_def updateInteractiveCard_call_def)

lemma fire_inactivity:
  "timers s h = Some \<lparr>callback = InactivityTimeout bizId, due = d\<rparr> \<Longrightarrow> d \<le> now \<Longrightarrow>
   fire h now s =
     s\<lparr>timers := (timers s)(h := None),
       cardUpdateTimeouts := (cardUpdateTimeouts s)(bizId := None)\<rparr>"
  by (simp add: fire_def)

lemma put_waiting:
  "inflight s r = Some rq \<Longrightarrow> r \<in> awaitingToken s \<Longrightarrow>
   updateInteractiveCard_put r s
     = s\<lparr>awaitingToken := awaitingToken s - {r}, puts := puts s @ [(target rq, content rq)]\<rparr>"
  by (simp add: updateInteractiveCard_put_def)

lemma immediate_request:
  assumes "CARD_UPDATE_MIN_INTERVAL \<le> now - lastUpdateOf s bizId"
  shows "inflight (snd (updateInteractiveCardThrottled bizId msg now s))
           = (inflight s)(nextRequest s \<mapsto>
                \<lparr>target = bizId, content = msg, caller = Immediate (nextPromise s)\<rparr>)"
    and "awaitingToken (snd (updateInteractiveCardThrottled bizId msg now s))
           = insert (nextRequest s) (awaitingToken s)"
    and "puts (snd (updateInteractiveCardThrottled bizId msg now s)) = puts s"
    and "nextRequest (snd (updateInteractiveCardThrottled bizId msg now s)) = Suc (nextRequest s)"
    and "lastUpdateOf (snd (updateInteractiveCardThrottled bizId msg now s)) bizId = now"
  by (simp_all add: throttled_immediate [OF assms] lastUpdateOf_def)

lemma two_calls_puts:
  assumes a: "CARD_UPDATE_MIN_INTERVAL \<le> t1 - lastUpdateOf s bizId"
    and b: "CARD_UPDATE_MIN_INTERVAL \<le> t2 - t1"
  shows "puts (run [UpdateThrottled bizId x1 t1, Put (nextRequest s),
                    UpdateThrottled bizId x2 t2, Put (Suc (nextRequest s))] s)
           = puts s @ [(bizId, x1), (bizId, x2)]"
    and "puts (run [UpdateThrottled bizId x1 t1, UpdateThrottled bizId x2 t2,
                    Put (nextRequest s), Put (Suc (nextRequest s))] s)
           = puts s @ [(bizId, x1), (bizId, x2)]"
proof -
  let ?r = "nextRequest s"
  let ?s1 = "snd (updateInteractiveCardThrottled bizId x1 t1 s)"
  note i1 = immediate_request [OF a, of x1]
  have f1: "inflight ?s1 ?r = Some \<lparr>target = bizId, content = x1, caller = Immediate (nextPromise s)\<rparr>"
    "?r \<in> awaitingToken ?s1"
    by (simp_all add: i1)
  text \<open>The token of the first call arrives before the second call.\<close>
  let ?p1 = "updateInteractiveCard_put ?r ?s1"
  have g1: "puts ?p1 = puts s @ [(bizId, x1)]" "lastUpdateOf ?p1 bizId = t1"
    using i1(3,5) by (simp_all add: put_waiting [OF f1] lastUpdateOf_def)
  have c1: "CARD_UPDATE_MIN_INTERVAL \<le> t2 - lastUpdateOf ?p1 bizId"
    using b g1(2) by simp
  let ?s2 = "snd (updateInteractiveCardThrottled bizId x2 t2 ?p1)"
  note i2 = immediate_request [OF c1, of x2]
  have f2: "inflight ?s2 (Suc ?r)
      = Some \<lparr>target = bizId, content = x2, caller = Immediate (nextPromise ?p1)\<rparr>"
    "Suc ?r \<in> awaitingToken ?s2"
    using i1(4) by (simp_all add: i2)
  have h2: "puts ?s2 = puts s @ [(bizId, x1)]"
    using i2(3) g1(1) by simp
  show "puts (run [UpdateThrottled bizId x1 t1, Put (nextRequest s),
                    UpdateThrottled bizId x2 t2, Put (Suc (nextRequest s))] s)
           = puts s @ [(bizId, x1), (bizId, x2)]"
    by (simp add: put_waiting [OF f2] h2)
  text \<open>Both tokens arrive after the second call, in the order of the calls.\<close>
  have c2: "CARD_UPDATE_MIN_INTERVAL \<le> t2 - lastUpdateOf ?s1 bizId"
    using b i1(5) by simp
  let ?s3 = "snd (updateInteractiveCardThrottled bizId x2 t2 ?s1)"
  note i3 = immediate_request [OF c2, of x2]
  have f3: "inflight ?s3 ?r = Some \<lparr>target = bizId, content = x1, caller = Immediate (nextPromise s)\<rparr>"
    "?r \<in> awaitingToken ?s3"
    using i1(4) by (simp_all add: i3 i1(1,2))
  have f4: "inflight ?s3 (Suc ?r)
      = Some \<lparr>target = bizId, content = x2, caller = Immediate (nextPromise ?s1)\<rparr>"
    "Suc ?r \<in> awaitingToken ?s3"
    using i1(4) by (simp_all add: i3)
  have h3: "puts ?s3 = puts s"
    using i3(3) i1(3) by simp
  let ?p3 = "updateInteractiveCard_put ?r ?s3"
  have g3: "inflight ?p3 (Suc ?r)
      = Some \<lparr>target = bizId, content = x2, caller = Immediate (nextPromise ?s1)\<rparr>"
    "Suc ?r \<in> awaitingToken ?p3"
    using f4 by (simp_all add: put_waiting [OF f3])
  have h4: "puts ?p3 = puts s @ [(bizId, x1)]"
    using h3 by (simp add: put_waiting [OF f3])
  show "puts (run [UpdateThrottled bizId x1 t1, UpdateThrottled bizId x2 t2,
                    Put (nextRequest s), Put (Suc (nextRequest s))] s)
           = puts s @ [(bizId, x1), (bizId, x2)]"
    by (simp add: put_waiting [OF g3] h4)
qed

text \<open>
  C8, as stated, fails in its last sentence. The throttle calls
  \<open>updateInteractiveCard\<close> for two eligible calls in their order, but each call sends its
  PUT only when its own \<open>getAccessToken\<close> has returned. In \<open>outOfOrder\<close> the token of
  the second call arrives first and the text of the second call is sent before the
  text of the first; in \<open>tokenLost\<close> the first call gets no token, its promise is
  rejected and its text is never sent.
\<close>

theorem throttled_sent_in_order_counterexample:
  "CARD_UPDATE_MIN_INTERVAL \<le> 1000 - lastUpdateOf init ''c1''
   \<and> CARD_UPDATE_MIN_INTERVAL \<le> 1500 - (1000 :: int)
   \<and> requests (run outOfOrder init) = [(''c1'', ''a''), (''c1'', ''b'')]
   \<and> puts (run outOfOrder init) = [(''c1'', ''b''), (''c1'', ''a'')]
   \<and> requests (run tokenLost init) = [(''c1'', ''a''), (''c1'', ''b'')]
   \<and> puts (run tokenLost init) = [(''c1'', ''b'')]
   \<and> promises (run tokenLost init) 0 = Some (Rejected TokenError)"
  by (simp add: outOfOrder_def tokenLost_def card_defs)

text \<open>
  C8, amended: a throttled call made at least 500 ms after the last recorded dispatch
  of the card is dispatched at once: \<open>updateInteractiveCard\<close> is called, the time is
  recorded and no timer is armed; the PUT has not left yet, the call waits for its
  token. A card with no recorded dispatch counts as dispatched at time 0, so its first
  update is dispatched at once (\<open>Date.now()\<close> is in milliseconds since 1970, hence at
  least 500). Otherwise nothing is dispatched by the call; a timer is armed with the
  delay 500 - elapsed, it does nothing before it is due, and when it fires it
  dispatches the text of the call. Two calls for one card, the first at least 500 ms
  after the last recorded dispatch and the second at least 500 ms after the first, are
  both dispatched at once, in this order, whatever requests settle in between; and
  when their tokens arrive in the order of the calls, both texts are sent, in that
  order.
\<close>

theorem updateInteractiveCardThrottled_timing:
  "(CARD_UPDATE_MIN_INTERVAL \<le> now - lastUpdateOf s bizId \<longrightarrow>
      requests (snd (updateInteractiveCardThrottled bizId msg now s)) = requests s @ [(bizId, msg)]
      \<and> cardUpdateTimestamps (snd (updateInteractiveCardThrottled bizId msg now s)) bizId = Some now
      \<and> nextTimer (snd (updateInteractiveCardThrottled bizId msg now s)) = nextTimer s
      \<and> puts (snd (updateInteractiveCardThrottled bizId msg now s)) = puts s
      \<and> nextRequest s \<in> awaitingToken (snd (updateInteractiveCardThrottled bizId msg now s)))
   \<and> (cardUpdateTimestamps s bizId = None \<and> CARD_UPDATE_MIN_INTERVAL \<le> now \<longrightarrow>
      requests (snd (updateInteractiveCardThrottled bizId msg now s)) = requests s @ [(bizId, msg)])
   \<and> (now - lastUpdateOf s bizId < CARD_UPDATE_MIN_INTERVAL \<longrightarrow>
      requests (snd (updateInteractiveCardThrottled bizId msg now s)) = requests s
      \<and> cardUpdateTimeouts (snd (updateInteractiveCardThrottled bizId msg now s)) bizId
          = Some (nextTimer s)
      \<and> timers (snd (updateInteractiveCardThrottled bizId msg now s)) (nextTimer s)
          = Some \<lparr>callback = DelayedUpdate bizId msg (nextPromise s),
                  due = now + (CARD_UPDATE_MIN_INTERVAL - (now - lastUpdateOf s bizId))\<rparr>
      \<and> (\<forall>t. now + (CARD_UPDATE_MIN_INTERVAL - (now - lastUpdateOf s bizId)) \<le> t \<longrightarrow>
            requests (fire (nextTimer s) t (snd (updateInteractiveCardThrottled bizId msg now s)))
              = requests s @ [(bizId, msg)])
      \<and> (\<forall>t. t < now + (CARD_UPDATE_MIN_INTERVAL - (now - lastUpdateOf s bizId)) \<longrightarrow>
            fire (nextTimer s) t (snd (updateInteractiveCardThrottled bizId msg now s))
              = snd (updateInteractiveCardThrottled bizId msg now s)))
   \<and> (CARD_UPDATE_MIN_INTERVAL \<le> t1 - lastUpdateOf s bizId \<and> CARD_UPDATE_MIN_INTERVAL \<le> t2 - t1 \<longrightarrow>
      requests (run (UpdateThrottled bizId x1 t1 # map (\<lambda>(r, res, t). Settle r res t) ss
                       @ [UpdateThrottled bizId x2 t2]) s)
        = requests s @ [(bizId, x1), (bizId, x2)]
      \<and> puts (run [UpdateThrottled bizId x1 t1, Put (nextRequest s),
                    UpdateThrottled bizId x2 t2, Put (Suc (nextRequest s))] s)
           = puts s @ [(bizId, x1), (bizId, x2)]
      \<and> puts (run [UpdateThrottled bizId x1 t1, UpdateThrottled bizId x2 t2,
                    Put (nextRequest s), Put (Suc (nextRequest s))] s)
           = puts s @ [(bizId, x1), (bizId, x2)])"
proof (intro conjI impI)
  assume a: "CARD_UPDATE_MIN_INTERVAL \<le> now - lastUpdateOf s bizId"
  show "requests (snd (updateInteractiveCardThrottled bizId msg now s)) = requests s @ [(bizId, msg)]"
    "cardUpdateTimestamps (snd (updateInteractiveCardThrottled bizId msg now s)) bizId = Some now"
    "nextTimer (snd (updateInteractiveCardThrottled bizId msg now s)) = nextTimer s"
    "puts (snd (updateInteractiveCardThrottled bizId msg now s)) = puts s"
    "nextRequest s \<in> awaitingToken (snd (updateInteractiveCardThrottled bizId msg now s))"
    by (simp_all add: throttled_immediate [OF a])
next
  assume "cardUpdateTimestamps s bizId = None \<and> CARD_UPDATE_MIN_INTERVAL \<le> now"
  then have a: "CARD_UPDATE_MIN_INTERVAL \<le> now - lastUpdateOf s bizId"
    by (simp add: lastUpdateOf_def)
  show "requests (snd (updateInteractiveCardThrottled bizId msg now s)) = requests s @ [(bizId, msg)]"
    by (simp add: throttled_immediate [OF a])
next
  assume a: "now - lastUpdateOf s bizId < CARD_UPDATE_MIN_INTERVAL"
  let ?s' = "snd (updateInteractiveCardThrottled bizId msg now s)"
  let ?d = "now + (CARD_UPDATE_MIN_INTERVAL - (now - lastUpdateOf s bizId))"
  show r: "requests ?s' = requests s"
    and "cardUpdateTimeouts ?s' bizId = Some (nextTimer s)"
    and t: "timers ?s' (nextTimer s) = Some \<lparr>callback = DelayedUpdate bizId msg (nextPromise s), due = ?d\<rparr>"
    by (simp_all add: throttled_delayed [OF a])
  show "\<forall>t. ?d \<le> t \<longrightarrow> requests (fire (nextTimer s) t ?s') = requests s @ [(bizId, msg)]"
    using fire_delayed [OF t] r by simp
  show "\<forall>t. t < ?d \<longrightarrow> fire (nextTimer s) t ?s' = ?s'"
    using t by (simp add: fire_def)
next
  assume b: "CARD_UPDATE_MIN_INTERVAL \<le> t1 - lastUpdateOf s bizId \<and> CARD_UPDATE_MIN_INTERVAL \<le> t2 - t1"
  let ?s1 = "snd (updateInteractiveCardThrottled bizId x1 t1 s)"
  let ?s2 = "run (map (\<lambda>(r, res, t). Settle r res t) ss) ?s1"
  have s1: "requests ?s1 = requests s @ [(bizId, x1)]" "cardUpdateTimestamps ?s1 bizId = Some t1"
    using b by (simp_all add: throttled_immediate)
  have s2: "requests ?s2 = requests s @ [(bizId, x1)]" "cardUpdateTimestamps ?s2 bizId = Some t1"
    using run_settles [of ss ?s1] s1 by simp_all
  have "CARD_UPDATE_MIN_INTERVAL \<le> t2 - lastUpdateOf ?s2 bizId"
    using b s2(2) by (simp add: lastUpdateOf_def)
  from throttled_immediate [OF this, of x2] s2(1)
  show "requests (run (UpdateThrottled bizId x1 t1 # map (\<lambda>(r, res, t). Settle r res t) ss
                       @ [UpdateThrottled bizId x2 t2]) s)
        = requests s @ [(bizId, x1), (bizId, x2)]"
    by simp
  from b have b1: "CARD_UPDATE_MIN_INTERVAL \<le> t1 - lastUpdateOf s bizId"
    and b2: "CARD_UPDATE_MIN_INTERVAL \<le> t2 - t1"
    by simp_all
  show "puts (run [UpdateThrottled bizId x1 t1, Put (nextRequest s),
                    UpdateThrottled bizId x2 t2, Put (Suc (nextRequest s))] s)
           = puts s @ [(bizId, x1), (bizId, x2)]"
    by (rule two_calls_puts(1) [OF b1 b2])
  show "puts (run [UpdateThrottled bizId x1 t1, UpdateThrottled bizId x2 t2,
                    Put (nextRequest s), Put (Suc (nextRequest s))] s)
           = puts s @ [(bizId, x1), (bizId, x2)]"
    by (rule two_calls_puts(2) [OF b1 b2])
qed

text \<open>
  C8 at concrete inputs: a first update at 1000, a second one 100 ms later (delayed
  to 1500), and a second one 500 ms later (dispatched at once, and sent second when
  the tokens arrive in the order of the calls).
\<close>

theorem updateInteractiveCardThrottled_timing_witness:
  "CARD_UPDATE_MIN_INTERVAL \<le> 1000 - lastUpdateOf init ''c1''
   \<and> cardUpdateTimestamps init ''c1'' = None
   \<and> requests (snd (updateInteractiveCardThrottled ''c1'' ''x'' 1000 init)) = [(''c1'', ''x'')]
   \<and> 1100 - lastUpdateOf oneCard ''c1'' < CARD_UPDATE_MIN_INTERVAL
   \<and> requests (snd (updateInteractiveCardThrottled ''c1'' ''y'' 1100 oneCard)) = [(''c1'', ''x'')]
   \<and> timers (snd (updateInteractiveCardThrottled ''c1'' ''y'' 1100 oneCard)) 0
        = Some \<lparr>callback = DelayedUpdate ''c1'' ''y'' 1, due = 1500\<rparr>
   \<and> requests (fire 0 1500 (snd (updateInteractiveCardThrottled ''c1'' ''y'' 1100 oneCard)))
        = [(''c1'', ''x''), (''c1'', ''y'')]
   \<and> fire 0 1499 (snd (updateInteractiveCardThrottled ''c1'' ''y'' 1100 oneCard))
        = snd (updateInteractiveCardThrottled ''c1'' ''y'' 1100 oneCard)
   \<and> CARD_UPDATE_MIN_INTERVAL \<le> 1500 - (1000 :: int)
   \<and> requests (run (UpdateThrottled ''c1'' ''x'' 1000 # map (\<lambda>(r, res, t). Settle r res t) [(0, Succeeded, 1200)]
                       @ [UpdateThrottled ''c1'' ''y'' 1500]) init)
        = [(''c1'', ''x''), (''c1'', ''y'')]
   \<and> puts (snd (updateInteractiveCardThrottled ''c1'' ''x'' 1000 init)) = []
   \<and> 0 \<in> awaitingToken (snd (updateInteractiveCardThrottled ''c1'' ''x'' 1000 init))
   \<and> puts (run [UpdateThrottled ''c1'' ''x'' 1000, Put 0,
                 UpdateThrottled ''c1'' ''y'' 1500, Put 1] init)
        = [(''c1'', ''x''), (''c1'', ''y'')]
   \<and> puts (run [UpdateThrottled ''c1'' ''x'' 1000, UpdateThrottled ''c1'' ''y'' 1500,
                 Put 0, Put 1] init)
        = [(''c1'', ''x''), (''c1'', ''y'')]"
proof -
  have a: "CARD_UPDATE_MIN_INTERVAL \<le> 1000 - lastUpdateOf init ''c1''"
    "cardUpdateTimestamps init ''c1'' = None"
    "CARD_UPDATE_MIN_INTERVAL \<le> 1500 - (1000 :: int)"
    by (simp_all add: init_def lastUpdateOf_def CARD_UPDATE_MIN_INTERVAL_def)
  have l: "lastUpdateOf oneCard ''c1'' = 1000" "nextTimer oneCard = 0" "nextPromise oneCard = 1"
    "requests oneCard = [(''c1'', ''x'')]"
    by (simp_all add: oneCard_def card_defs)
  have b: "1100 - lastUpdateOf oneCard ''c1'' < CARD_UPDATE_MIN_INTERVAL"
    by (simp add: l CARD_UPDATE_MIN_INTERVAL_def)
  from a b l
    updateInteractiveCardThrottled_timing [where s = init and bizId = "''c1''" and now = 1000
      and msg = "''x''" and ?t1.0 = 1000 and ?t2.0 = 1500 and ?x1.0 = "''x''" and ?x2.0 = "''y''"
      and ss = "[(0, Succeeded, 1200)]"]
    updateInteractiveCardThrottled_timing [where s = oneCard and bizId = "''c1''" and now = 1100
      and msg = "''y''"]
  show ?thesis
    by (simp add: init_def CARD_UPDATE_MIN_INTERVAL_def)
qed

subsection \<open>Inactivity and unknown cards\<close>

text \<open>
  C4, as stated, fails: the code has no finalized state and no \<open>TargetNotOpen\<close> error.
  After the inactivity timeout of the card has fired, a further throttled update is
  dispatched and its promise is pending, not rejected; and so is a throttled update
  of a card that \<open>cardInstances\<close> has never held.
\<close>

theorem finalized_target_counterexample:
  "timers (run (take 3 idle) init) 0 = Some \<lparr>callback = InactivityTimeout ''c1'', due = 61100\<rparr>
   \<and> cardUpdateTimeouts (run idle init) ''c1'' = None
   \<and> timers (run idle init) 0 = None
   \<and> requests (run (idle @ [UpdateThrottled ''c1'' ''b'' 70000]) init) = [(''c1'', ''a''), (''c1'', ''b'')]
   \<and> promises (run (idle @ [UpdateThrottled ''c1'' ''b'' 70000]) init) 1 = Some Pending
   \<and> cardInstances init = []
   \<and> requests (run [UpdateThrottled ''ghost'' ''x'' 1000] init) = [(''ghost'', ''x'')]
   \<and> promises (run [UpdateThrottled ''ghost'' ''x'' 1000] init) 0 = Some Pending"
  by (simp add: idle_def card_defs)

lemma throttled_ignores_registry:
  "updateInteractiveCardThrottled bizId msg now (s\<lparr>cardInstances := reg\<rparr>)
     = (fst (updateInteractiveCardThrottled bizId msg now s),
        (snd (updateInteractiveCardThrottled bizId msg now s))\<lparr>cardInstances := reg\<rparr>)"
  by (simp add: updateInteractiveCardThrottled_def updateInteractiveCard_call_def setTimeout_def
      clearExisting_def clearTimeout_def lastUpdateOf_def Let_def split: option.splits)

text \<open>
  C4, amended: when the inactivity timeout armed 60 s after a successful dispatch
  fires, the only effect is that the entry of the card is deleted from
  \<open>cardUpdateTimeouts\<close>. \<open>updateInteractiveCardThrottled\<close> never reads
  \<open>cardInstances\<close>: it does the same whatever the registry holds, and a call made at
  least 500 ms after the last recorded dispatch of a card is dispatched at once, with
  a pending promise, whether or not the card is registered or its timeout has fired.
\<close>

theorem inactivity_and_unregistered:
  "(timers s h = Some \<lparr>callback = InactivityTimeout bizId, due = d\<rparr> \<and> d \<le> now \<longrightarrow>
      fire h now s
        = s\<lparr>timers := (timers s)(h := None),
            cardUpdateTimeouts := (cardUpdateTimeouts s)(bizId := None)\<rparr>)
   \<and> updateInteractiveCardThrottled bizId msg now (s\<lparr>cardInstances := reg\<rparr>)
       = (fst (updateInteractiveCardThrottled bizId msg now s),
          (snd (updateInteractiveCardThrottled bizId msg now s))\<lparr>cardInstances := reg\<rparr>)
   \<and> (CARD_UPDATE_MIN_INTERVAL \<le> now - lastUpdateOf s bizId \<longrightarrow>
      requests (snd (updateInteractiveCardThrottled bizId msg now s)) = requests s @ [(bizId, msg)]
      \<and> promises (snd (updateInteractiveCardThrottled bizId msg now s))
           (fst (updateInteractiveCardThrottled bizId msg now s)) = Some Pending)"
proof (intro conjI impI)
  assume "timers s h = Some \<lparr>callback = InactivityTimeout bizId, due = d\<rparr> \<and> d \<le> now"
  then show "fire h now s
        = s\<lparr>timers := (timers s)(h := None),
            cardUpdateTimeouts := (cardUpdateTimeouts s)(bizId := None)\<rparr>"
    by (simp add: fire_inactivity)
next
  show "updateInteractiveCardThrottled bizId msg now (s\<lparr>cardInstances := reg\<rparr>)
       = (fst (updateInteractiveCardThrottled bizId msg now s),
          (snd (updateInteractiveCardThrottled bizId msg now s))\<lparr>cardInstances := reg\<rparr>)"
    by (rule throttled_ignores_registry)
next
  assume a: "CARD_UPDATE_MIN_INTERVAL \<le> now - lastUpdateOf s bizId"
  show "requests (snd (updateInteractiveCardThrottled bizId msg now s)) = requests s @ [(bizId, msg)]"
    "promises (snd (updateInteractiveCardThrottled bizId msg now s))
           (fst (updateInteractiveCardThrottled bizId msg now s)) = Some Pending"
    by (simp_all add: throttled_immediate [OF a])
qed

text \<open>
  C4, amended, at concrete inputs: the timeout of \<open>idle\<close> fires at 61100, and a card
  unknown to the registry is updated at 1000.
\<close>

theorem inactivity_and_unregistered_witness:
  "timers (run (take 3 idle) init) 0 = Some \<lparr>callback = InactivityTimeout ''c1'', due = 61100\<rparr>
   \<and> cardUpdateTimeouts (fire 0 61100 (run (take 3 idle) init)) ''c1'' = None
   \<and> cardUpdateTimestamps (fire 0 61100 (run (take 3 idle) init)) ''c1'' = Some 1000
   \<and> map_of (cardInstances (fire 0 61100 (run (take 3 idle) init))) ''c1''
       = Some \<lparr>cardBizId = ''c1'', conversationId = ''conv'', createdAt = 10, lastUpdated = 1100\<rparr>
   \<and> CARD_UPDATE_MIN_INTERVAL \<le> 1000 - lastUpdateOf init ''ghost''
   \<and> requests (snd (updateInteractiveCardThrottled ''ghost'' ''x'' 1000 init)) = [(''ghost'', ''x'')]
   \<and> promises (snd (updateInteractiveCardThrottled ''ghost'' ''x'' 1000 init))
        (fst (updateInteractiveCardThrottled ''ghost'' ''x'' 1000 init)) = Some Pending"
proof -
  have t: "timers (run (take 3 idle) init) 0 = Some \<lparr>callback = InactivityTimeout ''c1'', due = 61100\<rparr>"
    by (simp add: idle_def card_defs)
  have f: "cardUpdateTimestamps (run (take 3 idle) init) ''c1'' = Some 1000"
    "cardInstances (run (take 3 idle) init)
       = [(''c1'', \<lparr>cardBizId = ''c1'', conversationId = ''conv'', createdAt = 10, lastUpdated = 1100\<rparr>)]"
    by (simp_all add: idle_def card_defs)
  have g: "CARD_UPDATE_MIN_INTERVAL \<le> 1000 - lastUpdateOf init ''ghost''"
    by (simp add: init_def lastUpdateOf_def CARD_UPDATE_MIN_INTERVAL_def)
  have fire_eq: "fire 0 61100 (run (take 3 idle) init)
      = (run (take 3 idle) init)\<lparr>timers := (timers (run (take 3 idle) init))(0 := None),
          cardUpdateTimeouts := (cardUpdateTimeouts (run (take 3 idle) init))(''c1'' := None)\<rparr>"
    by (rule inactivity_and_unregistered [where d = 61100, THEN conjunct1, rule_format])
      (simp add: t)
  have ghost: "requests (snd (updateInteractiveCardThrottled ''ghost'' ''x'' 1000 init))
        = requests init @ [(''ghost'', ''x'')]
      \<and> promises (snd (updateInteractiveCardThrottled ''ghost'' ''x'' 1000 init))
        (fst (updateInteractiveCardThrottled ''ghost'' ''x'' 1000 init)) = Some Pending"
    by (rule inactivity_and_unregistered [THEN conjunct2, THEN conjunct2, rule_format]) (rule g)
  have "requests init = []" by (simp add: init_def)
  with t f g ghost show ?thesis
    by (simp add: fire_eq)
qed

subsection \<open>The sweep\<close>

lemma cleanup_entry_expired:
  "expired now (snd e) \<Longrightarrow>
   cleanup_entry now e s =
     s\<lparr>cardInstances := AList.delete (fst e) (cardInstances s),
       cardUpdateTimestamps := (cardUpdateTimestamps s)(fst e := None),
       timers := (case cardUpdateTimeouts s (fst e) of None \<Rightarrow> timers s
                  | Some h \<Rightarrow> (timers s)(h := None)),
       cardUpdateTimeouts := (cardUpdateTimeouts s)(fst e := None)\<rparr>"
  by (auto simp: cleanup_entry_def clearTimeout_def Let_def fun_upd_idem split: option.splits)

lemma cleanup_entry_fresh: "\<not> expired now (snd e) \<Longrightarrow> cleanup_entry now e s = s"
  by (simp add: cleanup_entry_def)

lemma evicted_Nil [simp]: "evicted now [] = {}"
  by (simp add: evicted_def)

lemma evicted_Cons [simp]:
  "evicted now (e # xs) = (if expired now (snd e) then insert (fst e) (evicted now xs) else evicted now xs)"
  by (auto simp: evicted_def)

lemma fold_cleanup_instances:
  "cardInstances (fold (cleanup_entry now) xs s)
     = filter (\<lambda>e. fst e \<notin> evicted now xs) (cardInstances s)"
proof (induction xs arbitrary: s)
  case Nil
  then show ?case by simp
next
  case (Cons e xs)
  show ?case
  proof (cases "expired now (snd e)")
    case True
    then show ?thesis
      by (auto simp: Cons.IH cleanup_entry_expired AList.delete_eq intro!: filter_cong)
  next
    case False
    then show ?thesis by (simp add: Cons.IH cleanup_entry_fresh)
  qed
qed

lemma fold_cleanup_timestamps:
  "cardUpdateTimestamps (fold (cleanup_entry now) xs s) k
     = (if k \<in> evicted now xs then None else cardUpdateTimestamps s k)"
  by (induction xs arbitrary: s) (auto simp: cleanup_entry_expired cleanup_entry_fresh)

lemma fold_cleanup_timeouts:
  "cardUpdateTimeouts (fold (cleanup_entry now) xs s) k
     = (if k \<in> evicted now xs then None else cardUpdateTimeouts s k)"
  by (induction xs arbitrary: s) (auto simp: cleanup_entry_expired cleanup_entry_fresh)

lemma fold_cleanup_timers:
  "timers (fold (cleanup_entry now) xs s) h
     = (if \<exists>k \<in> evicted now xs. cardUpdateTimeouts s k = Some h then None else timers s h)"
proof (induction xs arbitrary: s)
  case Nil
  then show ?case by simp
next
  case (Cons e xs)
  show ?case
  proof (cases "expired now (snd e)")
    case True
    then show ?thesis
      by (auto simp: Cons.IH cleanup_entry_expired split: option.splits if_splits)
  next
    case False
    then show ?thesis by (simp add: Cons.IH cleanup_entry_fresh)
  qed
qed

lemma fold_cleanup_others:
  "nextTimer (fold (cleanup_entry now) xs s) = nextTimer s"
  "requests (fold (cleanup_entry now) xs s) = requests s"
  "inflight (fold (cleanup_entry now) xs s) = inflight s"
  "nextRequest (fold (cleanup_entry now) xs s) = nextRequest s"
  "promises (fold (cleanup_entry now) xs s) = promises s"
  "nextPromise (fold (cleanup_entry now) xs s) = nextPromise s"
  by (induction xs arbitrary: s;
      simp add: cleanup_entry_def clearTimeout_def Let_def split: option.splits)+

subsection \<open>Reachable states\<close>

lemma resume_timers:
  "timers (resume who bizId v now s) h = Some t \<Longrightarrow>
   timers s h = Some t
   \<or> (h = nextTimer s \<and> nextTimer (resume who bizId v now s) = Suc (nextTimer s))"
  by (induction who bizId v now s rule: resume.induct)
    (auto simp: setTimeout_def split: if_splits)

lemma resume_nextTimer: "nextTimer s \<le> nextTimer (resume who bizId v now s)"
  by (induction who bizId v now s rule: resume.induct) (auto simp: setTimeout_def)

lemma resume_timeouts:
  "cardUpdateTimeouts (resume who bizId v now s) k = Some h \<Longrightarrow>
   (h = nextTimer s \<and> nextTimer (resume who bizId v now s) = Suc (nextTimer s))
   \<or> cardUpdateTimeouts s k = Some h"
  by (induction who bizId v now s rule: resume.induct)
    (auto simp: setTimeout_def split: if_splits)

lemma step_nextTimer: "nextTimer s \<le> nextTimer (step e s)"
proof (cases e)
  case (UpdateThrottled bizId msg now)
  then show ?thesis
    by (cases "CARD_UPDATE_MIN_INTERVAL \<le> now - lastUpdateOf s bizId")
      (simp_all add: throttled_immediate throttled_delayed)
next
  case (Settle r res now)
  then show ?thesis
    using resume_nextTimer
    by (auto simp: settle_def Let_def split_beta split: option.splits
        intro: order_trans [OF _ resume_nextTimer])
qed (simp_all add: sendInteractiveCard_def updateInteractiveCard_call_def fire_def
       cleanupCardCache_def fold_cleanup_others Let_def
       split: option.splits callback.splits)

lemma step_timers:
  "timers (step e s) h = Some t \<Longrightarrow> timers s h = Some t \<or> nextTimer s \<le> h \<and> h < nextTimer (step e s)"
proof (cases e)
  case (UpdateThrottled bizId msg now)
  assume a: "timers (step e s) h = Some t"
  show ?thesis
  proof (cases "CARD_UPDATE_MIN_INTERVAL \<le> now - lastUpdateOf s bizId")
    case True
    with a UpdateThrottled show ?thesis
      by (auto simp: throttled_immediate clearExisting_timers split: if_splits)
  next
    case False
    with a UpdateThrottled show ?thesis
      by (auto simp: throttled_delayed clearExisting_timers split: if_splits)
  qed
next
  case (Settle r res now)
  assume a: "timers (step e s) h = Some t"
  show ?thesis
  proof (cases rule: settle_cases [of r res now s])
    case 1
    with a Settle show ?thesis by simp
  next
    case (2 rq)
    let ?s1 = "snd (updateInteractiveCard_settle (target rq) res now (answered r res s))"
    let ?v = "fst (updateInteractiveCard_settle (target rq) res now (answered r res s))"
    have eq: "step e s = resume (caller rq) (target rq) ?v now ?s1"
      using Settle 2 by simp
    from a resume_timers [of "caller rq" "target rq" ?v now ?s1 h t] eq
    show ?thesis by auto
  qed
next
  case (Fire h' now)
  assume "timers (step e s) h = Some t"
  with Fire show ?thesis
    by (auto simp: fire_def updateInteractiveCard_call_def Let_def
        split: option.splits if_splits callback.splits)
next
  case (Cleanup now)
  assume "timers (step e s) h = Some t"
  with Cleanup show ?thesis
    by (auto simp: cleanupCardCache_def fold_cleanup_timers split: if_splits)
qed (simp_all add: sendInteractiveCard_def updateInteractiveCard_call_def)

lemma throttled_instances [simp]:
  "cardInstances (snd (updateInteractiveCardThrottled bizId msg now s)) = cardInstances s"
  by (cases "CARD_UPDATE_MIN_INTERVAL \<le> now - lastUpdateOf s bizId")
    (simp_all add: throttled_immediate throttled_delayed)

lemma fire_instances [simp]: "cardInstances (fire h now s) = cardInstances s"
  by (simp add: fire_def updateInteractiveCard_call_def Let_def
      split: option.splits callback.splits)

lemma settle_instances:
  "cardInstances (settle r res now s) = cardInstances s
   \<or> (\<exists>k v. cardInstances (settle r res now s) = AList.update k v (cardInstances s))
   \<or> (\<exists>k. cardInstances (settle r res now s) = AList.delete k (cardInstances s))"
  by (auto simp: settle_def updateInteractiveCard_settle_def Let_def split_beta
      split: option.splits outcome.splits error.splits)

lemma step_distinct:
  assumes "distinct (map fst (cardInstances s))"
  shows "distinct (map fst (cardInstances (step e s)))"
proof (cases e)
  case (SendCard bizId conv created updated)
  then show ?thesis
    using assms by (simp add: sendInteractiveCard_def AList.distinct_update)
next
  case (Settle r res now)
  then show ?thesis
    using assms settle_instances [of r res now s]
    by (auto simp: AList.distinct_update AList.distinct_delete)
next
  case (Cleanup now)
  then show ?thesis
    using assms by (simp add: cleanupCardCache_def fold_cleanup_instances distinct_map_filter)
qed (simp_all add: assms updateInteractiveCard_call_def)

lemma step_timeouts:
  "cardUpdateTimeouts (step e s) k = Some h \<Longrightarrow>
   cardUpdateTimeouts s k = Some h \<or> nextTimer s \<le> h \<and> h < nextTimer (step e s)"
proof (cases e)
  case (UpdateThrottled bizId msg now)
  assume a: "cardUpdateTimeouts (step e s) k = Some h"
  show ?thesis
  proof (cases "CARD_UPDATE_MIN_INTERVAL \<le> now - lastUpdateOf s bizId")
    case True
    with a UpdateThrottled show ?thesis by (simp add: throttled_immediate)
  next
    case False
    with a UpdateThrottled show ?thesis
      by (auto simp: throttled_delayed split: if_splits)
  qed
next
  case (Settle r res now)
  assume a: "cardUpdateTimeouts (step e s) k = Some h"
  show ?thesis
  proof (cases rule: settle_cases [of r res now s])
    case 1
    with a Settle show ?thesis by simp
  next
    case (2 rq)
    let ?s1 = "snd (updateInteractiveCard_settle (target rq) res now (answered r res s))"
    let ?v = "fst (updateInteractiveCard_settle (target rq) res now (answered r res s))"
    have eq: "step e s = resume (caller rq) (target rq) ?v now ?s1"
      using Settle 2 by simp
    from a resume_timeouts [of "caller rq" "target rq" ?v now ?s1 k h] eq
    show ?thesis by auto
  qed
next
  case (Fire h' now)
  assume "cardUpdateTimeouts (step e s) k = Some h"
  with Fire show ?thesis
    by (auto simp: fire_def updateInteractiveCard_call_def Let_def
        split: option.splits if_splits callback.splits)
next
  case (Cleanup now)
  assume "cardUpdateTimeouts (step e s) k = Some h"
  with Cleanup show ?thesis
    by (auto simp: cleanupCardCache_def fold_cleanup_timeouts split: if_splits)
qed (simp_all add: sendInteractiveCard_def updateInteractiveCard_call_def)

lemma wellformed_init: "wellformed init"
  by (simp add: wellformed_def init_def)

lemma wellformed_step: "wellformed s \<Longrightarrow> wellformed (step e s)"
  unfolding wellformed_def
  using step_distinct [of s e] step_timeouts [of e s] step_timers [of e s] step_nextTimer [of s e]
  by (meson less_le_trans)

lemma wellformed_run: "wellformed s \<Longrightarrow> wellformed (run es s)"
  by (induction es arbitrary: s) (simp_all add: wellformed_step)

lemma cleared_stays_cleared:
  "timers s h = None \<Longrightarrow> h < nextTimer s \<Longrightarrow> timers (run es s) h = None"
proof (induction es arbitrary: s)
  case Nil
  then show ?case by simp
next
  case (Cons e es)
  have "timers (step e s) h = None"
    using step_timers [of e s h] Cons.prems by (cases "timers (step e s) h") auto
  moreover have "h < nextTimer (step e s)"
    using step_nextTimer [of s e] Cons.prems by simp
  ultimately show ?case using Cons.IH by simp
qed

subsection \<open>What a sweep removes\<close>

lemma evicted_iff:
  assumes "distinct (map fst xs)" and e: "e \<in> set xs"
  shows "fst e \<in> evicted now xs \<longleftrightarrow> expired now (snd e)"
proof
  assume "fst e \<in> evicted now xs"
  then obtain e' where e': "e' \<in> set xs" "expired now (snd e')" "fst e' = fst e"
    by (auto simp: evicted_def)
  with e assms(1) have "e' = e"
    by (metis eq_key_imp_eq_value prod.collapse)
  with e'(2) show "expired now (snd e)" by simp
next
  assume "expired now (snd e)"
  with e show "fst e \<in> evicted now xs" by (auto simp: evicted_def)
qed

lemma evicted_expired:
  assumes "distinct (map fst xs)"
  shows "filter (\<lambda>e. fst e \<notin> evicted now xs) xs = filter (\<lambda>e. \<not> expired now (snd e)) xs"
  by (rule filter_cong [OF refl]) (simp add: evicted_iff [OF assms])

text \<open>
  C7, as stated, fails: a timer of an evicted card can fire after the eviction. In
  \<open>sweepable\<close> the update \<open>a\<close> of the first card is in flight when the sweep at 3600200
  evicts the card, whose age is 3600190, and clears its one timer. The update succeeds
  at 3600300; \<open>updateInteractiveCardThrottled\<close> then arms the inactivity timeout of
  the card and registers it, although the card is no longer in \<open>cardInstances\<close>. That
  timer is held until it fires at 3660300, one minute after the eviction.
\<close>

theorem sweep_timer_counterexample:
  "map_of (cardInstances (run sweepable init)) ''c1''
     = Some \<lparr>cardBizId = ''c1'', conversationId = ''conv'', createdAt = 10, lastUpdated = 10\<rparr>
   \<and> CARD_CACHE_TTL < 3600200 - (10 :: int)
   \<and> map_of (cardInstances (run (sweepable @ [Cleanup 3600200]) init)) ''c1'' = None
   \<and> cardUpdateTimeouts (run (sweepable @ [Cleanup 3600200]) init) ''c1'' = None
   \<and> timers (run (sweepable @ [Cleanup 3600200]) init) 0 = None
   \<and> nextTimer (run (sweepable @ [Cleanup 3600200]) init) = 1
   \<and> map_of (cardInstances (run (sweepable @ [Cleanup 3600200, Settle 0 Succeeded 3600300]) init)) ''c1''
       = None
   \<and> timers (run (sweepable @ [Cleanup 3600200, Settle 0 Succeeded 3600300]) init) 1
       = Some \<lparr>callback = InactivityTimeout ''c1'', due = 3660300\<rparr>
   \<and> cardUpdateTimeouts (run (sweepable @ [Cleanup 3600200, Settle 0 Succeeded 3600300]) init) ''c1''
       = Some 1
   \<and> timers (run (sweepable @ [Cleanup 3600200, Settle 0 Succeeded 3600300,
                               Fire 1 3660300]) init) 1 = None
   \<and> cardUpdateTimeouts (run (sweepable @ [Cleanup 3600200, Settle 0 Succeeded 3600300,
                                           Fire 1 3660300]) init) ''c1'' = None"
  by (simp add: sweepable_def card_defs)

text \<open>
  C7, amended: in every state the module can reach, a run of \<open>cleanupCardCache\<close> at
  time \<open>now\<close> leaves in \<open>cardInstances\<close> exactly the records with \<open>now - lastUpdated\<close>
  at most one hour, in their order and unchanged. For every record it removes, the
  timestamp and the timeout entry of the card are deleted and the timer registered in
  \<open>cardUpdateTimeouts\<close> for the card at the time of the sweep is cleared: whatever
  happens afterwards, Node never holds that timer again, and firing it does nothing.
  If the timers that Node held for the card were all registered for it, Node holds no
  timer for the card right after the sweep. For every record it keeps, the timestamp
  and the timeout entry of the card are as before.
\<close>

theorem cleanupCardCache_sweep:
  assumes "s = run es init"
  shows "cardInstances (cleanupCardCache now s)
           = filter (\<lambda>e. \<not> expired now (snd e)) (cardInstances s)
    \<and> (\<forall>e \<in> set (cardInstances s). expired now (snd e) \<longrightarrow>
          map_of (cardInstances (cleanupCardCache now s)) (fst e) = None
          \<and> cardUpdateTimestamps (cleanupCardCache now s) (fst e) = None
          \<and> cardUpdateTimeouts (cleanupCardCache now s) (fst e) = None
          \<and> (\<forall>h. cardUpdateTimeouts s (fst e) = Some h \<longrightarrow>
                (\<forall>es' t. timers (run es' (cleanupCardCache now s)) h = None
                   \<and> fire h t (run es' (cleanupCardCache now s)) = run es' (cleanupCardCache now s)))
          \<and> ((\<forall>h t. timers s h = Some t \<and> card_of (callback t) = fst e
                  \<longrightarrow> cardUpdateTimeouts s (fst e) = Some h) \<longrightarrow>
               (\<forall>h t. timers (cleanupCardCache now s) h = Some t \<longrightarrow> card_of (callback t) \<noteq> fst e)))
    \<and> (\<forall>e \<in> set (cardInstances s). \<not> expired now (snd e) \<longrightarrow>
          map_of (cardInstances (cleanupCardCache now s)) (fst e) = Some (snd e)
          \<and> cardUpdateTimestamps (cleanupCardCache now s) (fst e) = cardUpdateTimestamps s (fst e)
          \<and> cardUpdateTimeouts (cleanupCardCache now s) (fst e) = cardUpdateTimeouts s (fst e))"
proof -
  let ?s' = "cleanupCardCache now s"
  have wf: "wellformed s"
    using assms wellformed_run [OF wellformed_init] by simp
  then have d: "distinct (map fst (cardInstances s))"
    by (simp add: wellformed_def)
  have inst: "cardInstances ?s' = filter (\<lambda>e. \<not> expired now (snd e)) (cardInstances s)"
    by (simp add: cleanupCardCache_def fold_cleanup_instances evicted_expired [OF d])
  have gone: "e \<in> set (cardInstances s) \<Longrightarrow> expired now (snd e) \<Longrightarrow>
      fst e \<in> evicted now (cardInstances s)" for e
    by (auto simp: evicted_def)
  have kept: "e \<in> set (cardInstances s) \<Longrightarrow> \<not> expired now (snd e) \<Longrightarrow>
      fst e \<notin> evicted now (cardInstances s)" for e
    by (simp add: evicted_iff [OF d])
  have d': "distinct (map fst (cardInstances ?s'))"
    using d by (simp add: inst distinct_map_filter)
  have a: "map_of (cardInstances ?s') (fst e) = None
      \<and> cardUpdateTimestamps ?s' (fst e) = None
      \<and> cardUpdateTimeouts ?s' (fst e) = None
      \<and> (\<forall>h. cardUpdateTimeouts s (fst e) = Some h \<longrightarrow>
            (\<forall>es' t. timers (run es' ?s') h = None \<and> fire h t (run es' ?s') = run es' ?s'))
      \<and> ((\<forall>h t. timers s h = Some t \<and> card_of (callback t) = fst e
              \<longrightarrow> cardUpdateTimeouts s (fst e) = Some h) \<longrightarrow>
           (\<forall>h t. timers ?s' h = Some t \<longrightarrow> card_of (callback t) \<noteq> fst e))"
    if e: "e \<in> set (cardInstances s)" and x: "expired now (snd e)" for e
  proof (intro conjI allI impI)
    have "fst e \<notin> fst ` set (cardInstances ?s')"
      using gone [OF e x] by (auto simp: cleanupCardCache_def fold_cleanup_instances)
    then show "map_of (cardInstances ?s') (fst e) = None"
      by (simp add: map_of_eq_None_iff)
    show "cardUpdateTimestamps ?s' (fst e) = None" "cardUpdateTimeouts ?s' (fst e) = None"
      using gone [OF e x] by (simp_all add: cleanupCardCache_def fold_cleanup_timestamps fold_cleanup_timeouts)
  next
    fix h es' t
    assume h: "cardUpdateTimeouts s (fst e) = Some h"
    have 1: "timers ?s' h = None"
      using gone [OF e x] h by (auto simp: cleanupCardCache_def fold_cleanup_timers)
    have 2: "h < nextTimer ?s'"
      using wf h by (auto simp: wellformed_def cleanupCardCache_def fold_cleanup_others)
    show 3: "timers (run es' ?s') h = None"
      by (rule cleared_stays_cleared [OF 1 2])
    show "fire h t (run es' ?s') = run es' ?s'"
      by (simp add: fire_def 3)
  next
    fix h t
    assume reg: "\<forall>h t. timers s h = Some t \<and> card_of (callback t) = fst e
                  \<longrightarrow> cardUpdateTimeouts s (fst e) = Some h"
      and live: "timers ?s' h = Some t"
    from live have old: "timers s h = Some t"
      and kept: "\<not> (\<exists>k \<in> evicted now (cardInstances s). cardUpdateTimeouts s k = Some h)"
      by (auto simp: cleanupCardCache_def fold_cleanup_timers split: if_splits)
    show "card_of (callback t) \<noteq> fst e"
    proof
      assume "card_of (callback t) = fst e"
      with reg old have "cardUpdateTimeouts s (fst e) = Some h" by blast
      with kept gone [OF e x] show False by blast
    qed
  qed
  have b: "map_of (cardInstances ?s') (fst e) = Some (snd e)
      \<and> cardUpdateTimestamps ?s' (fst e) = cardUpdateTimestamps s (fst e)
      \<and> cardUpdateTimeouts ?s' (fst e) = cardUpdateTimeouts s (fst e)"
    if e: "e \<in> set (cardInstances s)" and x: "\<not> expired now (snd e)" for e
  proof (intro conjI)
    have "e \<in> set (cardInstances ?s')" using e x by (simp add: inst)
    then have "(fst e, snd e) \<in> set (cardInstances ?s')" by simp
    then show "map_of (cardInstances ?s') (fst e) = Some (snd e)"
      using d' by (simp only: map_of_is_SomeI)
    show "cardUpdateTimestamps ?s' (fst e) = cardUpdateTimestamps s (fst e)"
      "cardUpdateTimeouts ?s' (fst e) = cardUpdateTimeouts s (fst e)"
      using kept [OF e x] by (simp_all add: cleanupCardCache_def fold_cleanup_timestamps fold_cleanup_timeouts)
  qed
  from inst a b show ?thesis by blast
qed

text \<open>
  C7 at a concrete input: the sweep at 3600200 removes the first card of \<open>sweepable\<close>,
  whose age is 3600190, keeps the second, and clears the delayed update with handle 0;
  that timer does not fire later, also after the update in flight has succeeded.
\<close>

lemma sweepable_state:
  "cardInstances (run sweepable init)
     = [(''c1'', \<lparr>cardBizId = ''c1'', conversationId = ''conv'', createdAt = 10, lastUpdated = 10\<rparr>),
        (''c2'', \<lparr>cardBizId = ''c2'', conversationId = ''conv'', createdAt = 3000000, lastUpdated = 3000000\<rparr>)]"
  "cardUpdateTimeouts (run sweepable init) ''c1'' = Some 0"
  "timers (run sweepable init) 0 = Some \<lparr>callback = DelayedUpdate ''c1'' ''b'' 1, due = 3600500\<rparr>"
  by (simp_all add: sweepable_def card_defs)

theorem cleanupCardCache_sweep_witness:
  "cardUpdateTimeouts (run sweepable init) ''c1'' = Some 0
   \<and> timers (run sweepable init) 0 = Some \<lparr>callback = DelayedUpdate ''c1'' ''b'' 1, due = 3600500\<rparr>
   \<and> cardInstances (cleanupCardCache 3600200 (run sweepable init))
       = [(''c2'', \<lparr>cardBizId = ''c2'', conversationId = ''conv'', createdAt = 3000000, lastUpdated = 3000000\<rparr>)]
   \<and> cardUpdateTimestamps (cleanupCardCache 3600200 (run sweepable init)) ''c1'' = None
   \<and> cardUpdateTimeouts (cleanupCardCache 3600200 (run sweepable init)) ''c1'' = None
   \<and> \<not> (\<exists>h t. timers (cleanupCardCache 3600200 (run sweepable init)) h = Some t
             \<and> card_of (callback t) = ''c1'')
   \<and> timers (run [Settle 0 Succeeded 3600300] (cleanupCardCache 3600200 (run sweepable init))) 0 = None
   \<and> fire 0 3600500 (run [Settle 0 Succeeded 3600300] (cleanupCardCache 3600200 (run sweepable init)))
       = run [Settle 0 Succeeded 3600300] (cleanupCardCache 3600200 (run sweepable init))"
proof -
  let ?s = "run sweepable init"
  let ?s' = "cleanupCardCache 3600200 ?s"
  let ?c1 = "(''c1'', \<lparr>cardBizId = ''c1'', conversationId = ''conv'', createdAt = 10, lastUpdated = 10\<rparr>)"
  note sweep = cleanupCardCache_sweep [OF refl, where es = sweepable and now = 3600200]
  have x: "expired 3600200 (snd ?c1)" "?c1 \<in> set (cardInstances ?s)"
    by (simp_all add: expired_def CARD_CACHE_TTL_def sweepable_state)
  have ex: "\<not> expired 3600200
      \<lparr>cardBizId = ''c2'', conversationId = ''conv'', createdAt = 3000000, lastUpdated = 3000000\<rparr>"
    by (simp add: expired_def CARD_CACHE_TTL_def)
  have 1: "cardInstances ?s'
       = [(''c2'', \<lparr>cardBizId = ''c2'', conversationId = ''conv'', createdAt = 3000000, lastUpdated = 3000000\<rparr>)]"
    using sweep [THEN conjunct1] x(1) ex by (simp add: sweepable_state)
  note ev = sweep [THEN conjunct2, THEN conjunct1, rule_format, OF x(2) x(1), unfolded fst_conv]
  note 2 = ev [THEN conjunct2, THEN conjunct1] ev [THEN conjunct2, THEN conjunct2, THEN conjunct1]
  note 3 = ev [THEN conjunct2, THEN conjunct2, THEN conjunct2, THEN conjunct1]
  note 5 = ev [THEN conjunct2, THEN conjunct2, THEN conjunct2, THEN conjunct2]
  have "timers ?s = [0 \<mapsto> \<lparr>callback = DelayedUpdate ''c1'' ''b'' 1, due = 3600500\<rparr>]"
    by (simp add: sweepable_def card_defs)
  then have "\<forall>h t. timers ?s h = Some t \<and> card_of (callback t) = ''c1''
              \<longrightarrow> cardUpdateTimeouts ?s ''c1'' = Some h"
    by (simp add: sweepable_state(2))
  with 5 have 6: "\<not> (\<exists>h t. timers ?s' h = Some t \<and> card_of (callback t) = ''c1'')"
    by blast
  from 3 sweepable_state(2)
  have 4: "timers (run [Settle 0 Succeeded 3600300] ?s') 0 = None"
    "fire 0 3600500 (run [Settle 0 Succeeded 3600300] ?s') = run [Settle 0 Succeeded 3600300] ?s'"
    by blast+
  from 1 2 4 6 sweepable_state(2,3) show ?thesis by blast
qed

subsection \<open>Throttle entries and the registry\<close>

text \<open>
  C9, as stated, fails. After an update has failed with 404 the card is gone from
  \<open>cardInstances\<close> but its timestamp stays in \<open>cardUpdateTimestamps\<close>; and a throttled
  update of a card that was never registered leaves a timestamp and, once it has
  succeeded, a timeout handle for that card.
\<close>

theorem throttler_subset_counterexample:
  "cardInstances (run gone404 init) = []
   \<and> cardUpdateTimestamps (run gone404 init) ''c1'' = Some 1000
   \<and> \<not> dom (cardUpdateTimestamps (run gone404 init)) \<union> dom (cardUpdateTimeouts (run gone404 init))
          \<subseteq> fst ` set (cardInstances (run gone404 init))
   \<and> cardInstances (run [UpdateThrottled ''ghost'' ''x'' 1000, Settle 0 Succeeded 1100] init) = []
   \<and> cardUpdateTimestamps (run [UpdateThrottled ''ghost'' ''x'' 1000, Settle 0 Succeeded 1100] init) ''ghost''
        = Some 1000
   \<and> cardUpdateTimeouts (run [UpdateThrottled ''ghost'' ''x'' 1000, Settle 0 Succeeded 1100] init) ''ghost''
        = Some 0"
proof -
  have a: "cardInstances (run gone404 init) = []"
    "cardUpdateTimestamps (run gone404 init) ''c1'' = Some 1000"
    by (simp_all add: gone404_def card_defs)
  have "''c1'' \<in> dom (cardUpdateTimestamps (run gone404 init))"
    using a(2) by blast
  then have b: "\<not> dom (cardUpdateTimestamps (run gone404 init)) \<union> dom (cardUpdateTimeouts (run gone404 init))
          \<subseteq> fst ` set (cardInstances (run gone404 init))"
    by (auto simp: a(1))
  have c: "cardInstances (run [UpdateThrottled ''ghost'' ''x'' 1000, Settle 0 Succeeded 1100] init) = []"
    "cardUpdateTimestamps (run [UpdateThrottled ''ghost'' ''x'' 1000, Settle 0 Succeeded 1100] init) ''ghost''
        = Some 1000"
    "cardUpdateTimeouts (run [UpdateThrottled ''ghost'' ''x'' 1000, Settle 0 Succeeded 1100] init) ''ghost''
        = Some 0"
    by (simp_all add: card_defs)
  from a b c show ?thesis by blast
qed

lemma throttled_entry:
  "bizId \<in> dom (cardUpdateTimestamps (snd (updateInteractiveCardThrottled bizId msg now s)))
          \<union> dom (cardUpdateTimeouts (snd (updateInteractiveCardThrottled bizId msg now s)))"
  by (cases "CARD_UPDATE_MIN_INTERVAL \<le> now - lastUpdateOf s bizId")
    (simp_all add: throttled_immediate throttled_delayed)

text \<open>
  C9, amended: the throttle maps are not kept inside the registry. A throttled call
  leaves an entry for its card in \<open>cardUpdateTimestamps\<close> or in \<open>cardUpdateTimeouts\<close>,
  whether or not the card is registered. What the code maintains is this:
  \<open>cleanupCardCache\<close> deletes the entries of every card it evicts from both maps,
  so if every card with a throttle entry is registered before a sweep, the same
  holds after it.
\<close>

theorem cleanupCardCache_keeps_inclusion:
  "(dom (cardUpdateTimestamps s) \<union> dom (cardUpdateTimeouts s) \<subseteq> fst ` set (cardInstances s) \<longrightarrow>
      dom (cardUpdateTimestamps (cleanupCardCache now s)) \<union> dom (cardUpdateTimeouts (cleanupCardCache now s))
        \<subseteq> fst ` set (cardInstances (cleanupCardCache now s)))
   \<and> (\<forall>k \<in> evicted now (cardInstances s).
         k \<notin> fst ` set (cardInstances (cleanupCardCache now s))
         \<and> cardUpdateTimestamps (cleanupCardCache now s) k = None
         \<and> cardUpdateTimeouts (cleanupCardCache now s) k = None)
   \<and> bizId \<in> dom (cardUpdateTimestamps (snd (updateInteractiveCardThrottled bizId msg t s)))
               \<union> dom (cardUpdateTimeouts (snd (updateInteractiveCardThrottled bizId msg t s)))"
proof (intro conjI impI ballI)
  let ?s' = "cleanupCardCache now s"
  assume sub: "dom (cardUpdateTimestamps s) \<union> dom (cardUpdateTimeouts s) \<subseteq> fst ` set (cardInstances s)"
  show "dom (cardUpdateTimestamps ?s') \<union> dom (cardUpdateTimeouts ?s') \<subseteq> fst ` set (cardInstances ?s')"
  proof
    fix k assume "k \<in> dom (cardUpdateTimestamps ?s') \<union> dom (cardUpdateTimeouts ?s')"
    then have k: "k \<notin> evicted now (cardInstances s)"
      "k \<in> dom (cardUpdateTimestamps s) \<union> dom (cardUpdateTimeouts s)"
      by (auto simp: cleanupCardCache_def fold_cleanup_timestamps fold_cleanup_timeouts
          split: if_splits)
    with sub have "k \<in> fst ` set (cardInstances s)" by blast
    with k(1) show "k \<in> fst ` set (cardInstances ?s')"
      by (auto simp: cleanupCardCache_def fold_cleanup_instances)
  qed
next
  fix k assume "k \<in> evicted now (cardInstances s)"
  then show "k \<notin> fst ` set (cardInstances (cleanupCardCache now s))"
    "cardUpdateTimestamps (cleanupCardCache now s) k = None"
    "cardUpdateTimeouts (cleanupCardCache now s) k = None"
    by (auto simp: cleanupCardCache_def fold_cleanup_instances fold_cleanup_timestamps
        fold_cleanup_timeouts)
next
  show "bizId \<in> dom (cardUpdateTimestamps (snd (updateInteractiveCardThrottled bizId msg t s)))
               \<union> dom (cardUpdateTimeouts (snd (updateInteractiveCardThrottled bizId msg t s)))"
    by (rule throttled_entry)
qed

text \<open>C9, amended, at a concrete input: the sweep of \<open>sweepable\<close> at 3600200.\<close>

theorem cleanupCardCache_keeps_inclusion_witness:
  "cardUpdateTimestamps (run sweepable init) = [''c1'' \<mapsto> 3600000]
   \<and> cardUpdateTimeouts (run sweepable init) = [''c1'' \<mapsto> 0]
   \<and> fst ` set (cardInstances (run sweepable init)) = {''c1'', ''c2''}
   \<and> evicted 3600200 (cardInstances (run sweepable init)) = {''c1''}
   \<and> fst ` set (cardInstances (cleanupCardCache 3600200 (run sweepable init))) = {''c2''}
   \<and> dom (cardUpdateTimestamps (cleanupCardCache 3600200 (run sweepable init))) = {}
   \<and> dom (cardUpdateTimeouts (cleanupCardCache 3600200 (run sweepable init))) = {}"
proof -
  let ?s = "run sweepable init"
  let ?s' = "cleanupCardCache 3600200 ?s"
  note keep = cleanupCardCache_keeps_inclusion [where s = ?s and now = 3600200]
  have ts: "cardUpdateTimestamps ?s = [''c1'' \<mapsto> 3600000]"
    and tm: "cardUpdateTimeouts ?s = [''c1'' \<mapsto> 0]"
    by (simp_all add: sweepable_def card_defs)
  have ids: "fst ` set (cardInstances ?s) = {''c1'', ''c2''}"
    by (simp add: sweepable_state)
  have ev: "evicted 3600200 (cardInstances ?s) = {''c1''}"
    by (simp add: sweepable_state expired_def CARD_CACHE_TTL_def)
  have sub: "dom (cardUpdateTimestamps ?s) \<union> dom (cardUpdateTimeouts ?s) \<subseteq> fst ` set (cardInstances ?s)"
    by (simp add: ts tm ids)
  have "cardInstances ?s' = filter (\<lambda>e. fst e \<notin> {''c1''}) (cardInstances ?s)"
    by (simp only: cleanupCardCache_def fold_cleanup_instances ev)
  then have after: "fst ` set (cardInstances ?s') = {''c2''}"
    by (simp add: sweepable_state)
  from keep [THEN conjunct1, rule_format, OF sub] after
  have "dom (cardUpdateTimestamps ?s') \<union> dom (cardUpdateTimeouts ?s') \<subseteq> {''c2''}"
    by simp
  moreover from keep [THEN conjunct2, THEN conjunct1] ev
  have "cardUpdateTimestamps ?s' ''c1'' = None" "cardUpdateTimeouts ?s' ''c1'' = None"
    by simp_all
  moreover have "cardUpdateTimestamps ?s' ''c2'' = None" "cardUpdateTimeouts ?s' ''c2'' = None"
    unfolding cleanupCardCache_def fold_cleanup_timestamps fold_cleanup_timeouts
    by (simp_all add: ts tm)
  ultimately have "dom (cardUpdateTimestamps ?s') = {}" "dom (cardUpdateTimeouts ?s') = {}"
    by auto
  with ts tm ids ev after show ?thesis by simp
qed

subsection \<open>Bursts\<close>

lemma delayed_call:
  fixes msg :: string
  assumes d: "now - lastUpdateOf s bizId < CARD_UPDATE_MIN_INTERVAL"
    and tr: "tracked bizId s"
  defines "s1 \<equiv> snd (updateInteractiveCardThrottled bizId msg now s)"
  shows "requests s1 = requests s"
    and "lastUpdateOf s1 bizId = lastUpdateOf s bizId"
    and "cardUpdateTimeouts s1 bizId = Some (nextTimer s)"
    and "timers s1 (nextTimer s)
          = Some \<lparr>callback = DelayedUpdate bizId msg (nextPromise s),
                  due = lastUpdateOf s bizId + CARD_UPDATE_MIN_INTERVAL\<rparr>"
    and "\<forall>h x p d. timers s1 h = Some \<lparr>callback = DelayedUpdate bizId x p, due = d\<rparr>
          \<longrightarrow> h = nextTimer s"
proof -
  note eq = throttled_delayed [OF d, of msg]
  show "requests s1 = requests s" "cardUpdateTimeouts s1 bizId = Some (nextTimer s)"
    by (simp_all add: s1_def eq)
  show "lastUpdateOf s1 bizId = lastUpdateOf s bizId"
    by (simp add: s1_def eq lastUpdateOf_def)
  show "timers s1 (nextTimer s)
          = Some \<lparr>callback = DelayedUpdate bizId msg (nextPromise s),
                  due = lastUpdateOf s bizId + CARD_UPDATE_MIN_INTERVAL\<rparr>"
    by (simp add: s1_def eq)
  show "\<forall>h x p d. timers s1 h = Some \<lparr>callback = DelayedUpdate bizId x p, due = d\<rparr>
          \<longrightarrow> h = nextTimer s"
  proof (intro allI impI)
    fix h x p d
    assume a: "timers s1 h = Some \<lparr>callback = DelayedUpdate bizId x p, due = d\<rparr>"
    show "h = nextTimer s"
    proof (rule ccontr)
      assume n: "h \<noteq> nextTimer s"
      with a have b: "timers (clearExisting bizId s) h = Some \<lparr>callback = DelayedUpdate bizId x p, due = d\<rparr>"
        by (simp add: s1_def eq)
      then have "timers s h = Some \<lparr>callback = DelayedUpdate bizId x p, due = d\<rparr>"
        by (simp add: clearExisting_timers split: if_splits)
      with tr have "cardUpdateTimeouts s bizId = Some h"
        unfolding tracked_def by blast
      with b show False by (simp add: clearExisting_timers)
    qed
  qed
qed

lemma delayed_call_tracked:
  assumes "now - lastUpdateOf s bizId < CARD_UPDATE_MIN_INTERVAL" and "tracked bizId s"
  shows "tracked bizId (snd (updateInteractiveCardThrottled bizId msg now s))"
  using delayed_call(3,5) [OF assms, of msg] unfolding tracked_def by blast

lemma burst_coalesces:
  assumes "calls \<noteq> []"
    and "\<forall>c \<in> set calls. fst c - lastUpdateOf s bizId < CARD_UPDATE_MIN_INTERVAL"
    and "tracked bizId s"
  shows "requests (run (burst bizId calls) s) = requests s
    \<and> (\<exists>h p. cardUpdateTimeouts (run (burst bizId calls) s) bizId = Some h
          \<and> timers (run (burst bizId calls) s) h
               = Some \<lparr>callback = DelayedUpdate bizId (snd (last calls)) p,
                       due = lastUpdateOf s bizId + CARD_UPDATE_MIN_INTERVAL\<rparr>
          \<and> (\<forall>h' x' p' d'. timers (run (burst bizId calls) s) h'
                  = Some \<lparr>callback = DelayedUpdate bizId x' p', due = d'\<rparr> \<longrightarrow> h' = h))"
  using assms
proof (induction calls arbitrary: s)
  case Nil
  then show ?case by simp
next
  case (Cons c cs)
  let ?s1 = "snd (updateInteractiveCardThrottled bizId (snd c) (fst c) s)"
  have d: "fst c - lastUpdateOf s bizId < CARD_UPDATE_MIN_INTERVAL"
    using Cons.prems(2) by simp
  note one = delayed_call [OF d Cons.prems(3), of "snd c"]
  have run1: "run (burst bizId (c # cs)) s = run (burst bizId cs) ?s1"
    by (simp add: burst_def)
  show ?case
  proof (cases "cs = []")
    case True
    have r: "run (burst bizId (c # cs)) s = ?s1" "last (c # cs) = c"
      using True by (simp_all add: burst_def)
    show ?thesis
      unfolding r using one(1,3,4,5) by blast
  next
    case False
    have "\<forall>c \<in> set cs. fst c - lastUpdateOf ?s1 bizId < CARD_UPDATE_MIN_INTERVAL"
      using Cons.prems(2) one(2) by simp
    note ih = Cons.IH [OF False this delayed_call_tracked [OF d Cons.prems(3)]]
    have l: "last (c # cs) = last cs" using False by simp
    show ?thesis
      unfolding run1 l using ih unfolding one(1) one(2) .
  qed
qed

text \<open>
  C1, as stated, fails. Two calls 100 ms apart for a card with no recorded dispatch
  lead to two dispatches, one for each text: the first call is dispatched at once.
  And in \<open>overtaken\<close> the delayed update of the second call is still held by Node
  after the third call; when both timers fire at 1500, the text of the second call
  may be dispatched after the text of the third.
\<close>

theorem throttled_burst_counterexample:
  "requests (run firstBurst init) = [(''t1'', ''a''), (''t1'', ''b'')]
   \<and> \<not> length (requests (run firstBurst init)) \<le> 1
   \<and> timers (run overtaken init) 0 = Some \<lparr>callback = DelayedUpdate ''t1'' ''b'' 1, due = 1500\<rparr>
   \<and> timers (run overtaken init) 2 = Some \<lparr>callback = DelayedUpdate ''t1'' ''c'' 2, due = 1500\<rparr>
   \<and> requests (run (overtaken @ [Fire 2 1500, Fire 0 1500]) init)
       = [(''t1'', ''a''), (''t1'', ''c''), (''t1'', ''b'')]"
  by (simp add: firstBurst_def overtaken_def card_defs)

lemma burst_then_fire:
  assumes "calls \<noteq> []"
    and "\<forall>c \<in> set calls. fst c - lastUpdateOf s bizId < CARD_UPDATE_MIN_INTERVAL"
    and "tracked bizId s"
  shows "requests (run (burst bizId calls) s) = requests s
    \<and> (\<exists>h p. cardUpdateTimeouts (run (burst bizId calls) s) bizId = Some h
          \<and> timers (run (burst bizId calls) s) h
               = Some \<lparr>callback = DelayedUpdate bizId (snd (last calls)) p,
                       due = lastUpdateOf s bizId + CARD_UPDATE_MIN_INTERVAL\<rparr>
          \<and> (\<forall>h' x' p' d'. timers (run (burst bizId calls) s) h'
                  = Some \<lparr>callback = DelayedUpdate bizId x' p', due = d'\<rparr> \<longrightarrow> h' = h)
          \<and> (\<forall>t. lastUpdateOf s bizId + CARD_UPDATE_MIN_INTERVAL \<le> t \<longrightarrow>
                requests (fire h t (run (burst bizId calls) s))
                  = requests s @ [(bizId, snd (last calls))]))"
proof -
  let ?s' = "run (burst bizId calls) s"
  from burst_coalesces [OF assms]
  obtain h p where r: "requests ?s' = requests s"
    and h: "cardUpdateTimeouts ?s' bizId = Some h"
    and t: "timers ?s' h = Some \<lparr>callback = DelayedUpdate bizId (snd (last calls)) p,
                       due = lastUpdateOf s bizId + CARD_UPDATE_MIN_INTERVAL\<rparr>"
    and u: "\<forall>h' x' p' d'. timers ?s' h' = Some \<lparr>callback = DelayedUpdate bizId x' p', due = d'\<rparr>
              \<longrightarrow> h' = h"
    by blast
  have f: "requests (fire h t ?s') = requests s @ [(bizId, snd (last calls))]"
    if "lastUpdateOf s bizId + CARD_UPDATE_MIN_INTERVAL \<le> t" for t
    by (simp add: fire_delayed [OF t that] r)
  from r h t u f show ?thesis by blast
qed

lemma immediate_call_tracked:
  assumes i: "CARD_UPDATE_MIN_INTERVAL \<le> now - lastUpdateOf s bizId" and tr: "tracked bizId s"
  shows "tracked bizId (snd (updateInteractiveCardThrottled bizId msg now s))"
    and "lastUpdateOf (snd (updateInteractiveCardThrottled bizId msg now s)) bizId = now"
    and "requests (snd (updateInteractiveCardThrottled bizId msg now s)) = requests s @ [(bizId, msg)]"
proof -
  note eq = throttled_immediate [OF i, of msg]
  show "lastUpdateOf (snd (updateInteractiveCardThrottled bizId msg now s)) bizId = now"
    "requests (snd (updateInteractiveCardThrottled bizId msg now s)) = requests s @ [(bizId, msg)]"
    by (simp_all add: eq lastUpdateOf_def)
  show "tracked bizId (snd (updateInteractiveCardThrottled bizId msg now s))"
    unfolding tracked_def
  proof (intro allI impI)
    fix h x p d
    assume "timers (snd (updateInteractiveCardThrottled bizId msg now s)) h
              = Some \<lparr>callback = DelayedUpdate bizId x p, due = d\<rparr>"
    then have c: "timers (clearExisting bizId s) h = Some \<lparr>callback = DelayedUpdate bizId x p, due = d\<rparr>"
      by (simp add: eq)
    then have "timers s h = Some \<lparr>callback = DelayedUpdate bizId x p, due = d\<rparr>"
      by (simp add: clearExisting_timers split: if_splits)
    with tr have "cardUpdateTimeouts s bizId = Some h"
      unfolding tracked_def by blast
    with c show "cardUpdateTimeouts (snd (updateInteractiveCardThrottled bizId msg now s)) bizId = Some h"
      by (simp add: clearExisting_timers)
  qed
qed

text \<open>
  C1, amended: take a card whose pending delayed update, if there is one, is the one
  registered in \<open>cardUpdateTimeouts\<close>, and a non-empty sequence of throttled calls for
  it with nothing else in between. If each call is made less than 500 ms after the
  last recorded dispatch of the card, no call of the sequence dispatches anything;
  after the sequence exactly one delayed update is pending for the card, it is the
  registered one, it carries the text of the last call and is due 500 ms after the
  last recorded dispatch; and when it fires, the text of the last call is dispatched.
  If the sequence follows a call made 500 ms or more after the last recorded dispatch,
  and each of its calls is made less than 500 ms after that call, then that call is
  dispatched at once and the same holds for the sequence: one delayed update, with the
  text of the last call, due 500 ms after the dispatch.
\<close>

theorem throttled_burst:
  assumes "calls \<noteq> []" and "tracked bizId s"
  shows "((\<forall>c \<in> set calls. fst c - lastUpdateOf s bizId < CARD_UPDATE_MIN_INTERVAL) \<longrightarrow>
      requests (run (burst bizId calls) s) = requests s
      \<and> (\<exists>h p. cardUpdateTimeouts (run (burst bizId calls) s) bizId = Some h
            \<and> timers (run (burst bizId calls) s) h
                 = Some \<lparr>callback = DelayedUpdate bizId (snd (last calls)) p,
                         due = lastUpdateOf s bizId + CARD_UPDATE_MIN_INTERVAL\<rparr>
            \<and> (\<forall>h' x' p' d'. timers (run (burst bizId calls) s) h'
                    = Some \<lparr>callback = DelayedUpdate bizId x' p', due = d'\<rparr> \<longrightarrow> h' = h)
            \<and> (\<forall>t. lastUpdateOf s bizId + CARD_UPDATE_MIN_INTERVAL \<le> t \<longrightarrow>
                  requests (fire h t (run (burst bizId calls) s))
                    = requests s @ [(bizId, snd (last calls))])))
    \<and> (CARD_UPDATE_MIN_INTERVAL \<le> t0 - lastUpdateOf s bizId
        \<and> (\<forall>c \<in> set calls. fst c - t0 < CARD_UPDATE_MIN_INTERVAL) \<longrightarrow>
      requests (run (UpdateThrottled bizId x0 t0 # burst bizId calls) s) = requests s @ [(bizId, x0)]
      \<and> (\<exists>h p. cardUpdateTimeouts (run (UpdateThrottled bizId x0 t0 # burst bizId calls) s) bizId = Some h
            \<and> timers (run (UpdateThrottled bizId x0 t0 # burst bizId calls) s) h
                 = Some \<lparr>callback = DelayedUpdate bizId (snd (last calls)) p,
                         due = t0 + CARD_UPDATE_MIN_INTERVAL\<rparr>
            \<and> (\<forall>h' x' p' d'. timers (run (UpdateThrottled bizId x0 t0 # burst bizId calls) s) h'
                    = Some \<lparr>callback = DelayedUpdate bizId x' p', due = d'\<rparr> \<longrightarrow> h' = h)
            \<and> (\<forall>t. t0 + CARD_UPDATE_MIN_INTERVAL \<le> t \<longrightarrow>
                  requests (fire h t (run (UpdateThrottled bizId x0 t0 # burst bizId calls) s))
                    = requests s @ [(bizId, x0), (bizId, snd (last calls))])))"
proof (intro conjI impI)
  assume "\<forall>c \<in> set calls. fst c - lastUpdateOf s bizId < CARD_UPDATE_MIN_INTERVAL"
  from burst_then_fire [OF assms(1) this assms(2)]
  show "requests (run (burst bizId calls) s) = requests s"
    and "\<exists>h p. cardUpdateTimeouts (run (burst bizId calls) s) bizId = Some h
            \<and> timers (run (burst bizId calls) s) h
                 = Some \<lparr>callback = DelayedUpdate bizId (snd (last calls)) p,
                         due = lastUpdateOf s bizId + CARD_UPDATE_MIN_INTERVAL\<rparr>
            \<and> (\<forall>h' x' p' d'. timers (run (burst bizId calls) s) h'
                    = Some \<lparr>callback = DelayedUpdate bizId x' p', due = d'\<rparr> \<longrightarrow> h' = h)
            \<and> (\<forall>t. lastUpdateOf s bizId + CARD_UPDATE_MIN_INTERVAL \<le> t \<longrightarrow>
                  requests (fire h t (run (burst bizId calls) s))
                    = requests s @ [(bizId, snd (last calls))])"
    by blast+
next
  assume a: "CARD_UPDATE_MIN_INTERVAL \<le> t0 - lastUpdateOf s bizId
        \<and> (\<forall>c \<in> set calls. fst c - t0 < CARD_UPDATE_MIN_INTERVAL)"
  let ?s1 = "snd (updateInteractiveCardThrottled bizId x0 t0 s)"
  from a have i: "CARD_UPDATE_MIN_INTERVAL \<le> t0 - lastUpdateOf s bizId" by simp
  note first = immediate_call_tracked [OF i assms(2), of x0]
  have "\<forall>c \<in> set calls. fst c - lastUpdateOf ?s1 bizId < CARD_UPDATE_MIN_INTERVAL"
    using a by (simp add: first(2))
  note rest = burst_then_fire [OF assms(1) this first(1)]
  have r: "run (UpdateThrottled bizId x0 t0 # burst bizId calls) s = run (burst bizId calls) ?s1"
    by simp
  show "requests (run (UpdateThrottled bizId x0 t0 # burst bizId calls) s) = requests s @ [(bizId, x0)]"
    unfolding r using rest first(3) by simp
  show "\<exists>h p. cardUpdateTimeouts (run (UpdateThrottled bizId x0 t0 # burst bizId calls) s) bizId = Some h
            \<and> timers (run (UpdateThrottled bizId x0 t0 # burst bizId calls) s) h
                 = Some \<lparr>callback = DelayedUpdate bizId (snd (last calls)) p,
                         due = t0 + CARD_UPDATE_MIN_INTERVAL\<rparr>
            \<and> (\<forall>h' x' p' d'. timers (run (UpdateThrottled bizId x0 t0 # burst bizId calls) s) h'
                    = Some \<lparr>callback = DelayedUpdate bizId x' p', due = d'\<rparr> \<longrightarrow> h' = h)
            \<and> (\<forall>t. t0 + CARD_UPDATE_MIN_INTERVAL \<le> t \<longrightarrow>
                  requests (fire h t (run (UpdateThrottled bizId x0 t0 # burst bizId calls) s))
                    = requests s @ [(bizId, x0), (bizId, snd (last calls))])"
    unfolding r using rest [THEN conjunct2] unfolding first(2) first(3) by simp
qed

text \<open>
  C1, amended, at concrete inputs: after the update of \<open>oneCard\<close> at 1000, the calls
  at 1100 and 1400 lead to one dispatch, of the text of the second, at 1500; and the
  calls at 1000, 1100 and 1400 for a card that was never updated lead to the dispatch
  of the first text at 1000 and of the third at 1500.
\<close>

theorem throttled_burst_witness:
  "1100 - lastUpdateOf oneCard ''c1'' < CARD_UPDATE_MIN_INTERVAL
   \<and> 1400 - lastUpdateOf oneCard ''c1'' < CARD_UPDATE_MIN_INTERVAL
   \<and> tracked ''c1'' oneCard
   \<and> requests (run (burst ''c1'' [(1100, ''b''), (1400, ''c'')]) oneCard) = requests oneCard
   \<and> (\<exists>h p. cardUpdateTimeouts (run (burst ''c1'' [(1100, ''b''), (1400, ''c'')]) oneCard) ''c1'' = Some h
         \<and> timers (run (burst ''c1'' [(1100, ''b''), (1400, ''c'')]) oneCard) h
              = Some \<lparr>callback = DelayedUpdate ''c1'' ''c'' p, due = 1500\<rparr>
         \<and> requests (fire h 1500 (run (burst ''c1'' [(1100, ''b''), (1400, ''c'')]) oneCard))
              = [(''c1'', ''x''), (''c1'', ''c'')])
   \<and> CARD_UPDATE_MIN_INTERVAL \<le> 1000 - lastUpdateOf init ''t1''
   \<and> tracked ''t1'' init
   \<and> requests (run (UpdateThrottled ''t1'' ''a'' 1000 # burst ''t1'' [(1100, ''b''), (1400, ''c'')]) init)
        = [(''t1'', ''a'')]
   \<and> (\<exists>h p. timers (run (UpdateThrottled ''t1'' ''a'' 1000 # burst ''t1'' [(1100, ''b''), (1400, ''c'')]) init) h
              = Some \<lparr>callback = DelayedUpdate ''t1'' ''c'' p, due = 1500\<rparr>
         \<and> requests (fire h 1500
               (run (UpdateThrottled ''t1'' ''a'' 1000 # burst ''t1'' [(1100, ''b''), (1400, ''c'')]) init))
              = [(''t1'', ''a''), (''t1'', ''c'')])"
proof -
  let ?calls = "[(1100 :: int, ''b''), (1400, ''c'')]"
  have l: "lastUpdateOf oneCard ''c1'' = 1000" "requests oneCard = [(''c1'', ''x'')]"
    by (simp_all add: oneCard_def card_defs)
  have a: "?calls \<noteq> []" by simp
  have b: "\<forall>c \<in> set ?calls. fst c - lastUpdateOf oneCard ''c1'' < CARD_UPDATE_MIN_INTERVAL"
    by (simp add: l CARD_UPDATE_MIN_INTERVAL_def)
  have c: "tracked ''c1'' oneCard"
    by (simp add: tracked_def oneCard_def card_defs)
  have la: "snd (last ?calls) = ''c''" by simp
  from throttled_burst [OF a c, THEN conjunct1, THEN mp, OF b]
  obtain h p where r: "requests (run (burst ''c1'' ?calls) oneCard) = requests oneCard"
    and h: "cardUpdateTimeouts (run (burst ''c1'' ?calls) oneCard) ''c1'' = Some h"
    and t: "timers (run (burst ''c1'' ?calls) oneCard) h
         = Some \<lparr>callback = DelayedUpdate ''c1'' (snd (last ?calls)) p,
                 due = lastUpdateOf oneCard ''c1'' + CARD_UPDATE_MIN_INTERVAL\<rparr>"
    and f: "\<forall>t. lastUpdateOf oneCard ''c1'' + CARD_UPDATE_MIN_INTERVAL \<le> t \<longrightarrow>
         requests (fire h t (run (burst ''c1'' ?calls) oneCard))
           = requests oneCard @ [(''c1'', snd (last ?calls))]"
    by blast
  have t': "timers (run (burst ''c1'' ?calls) oneCard) h
         = Some \<lparr>callback = DelayedUpdate ''c1'' ''c'' p, due = 1500\<rparr>"
    using t unfolding la by (simp add: l CARD_UPDATE_MIN_INTERVAL_def)
  have "lastUpdateOf oneCard ''c1'' + CARD_UPDATE_MIN_INTERVAL \<le> 1500"
    by (simp add: l CARD_UPDATE_MIN_INTERVAL_def)
  with f have f': "requests (fire h 1500 (run (burst ''c1'' ?calls) oneCard))
           = [(''c1'', ''x''), (''c1'', ''c'')]"
    unfolding la by (simp add: l)
  have b': "1100 - lastUpdateOf oneCard ''c1'' < CARD_UPDATE_MIN_INTERVAL"
    "1400 - lastUpdateOf oneCard ''c1'' < CARD_UPDATE_MIN_INTERVAL"
    by (simp_all add: l CARD_UPDATE_MIN_INTERVAL_def)
  have i: "CARD_UPDATE_MIN_INTERVAL \<le> 1000 - lastUpdateOf init ''t1''"
    by (simp add: init_def lastUpdateOf_def CARD_UPDATE_MIN_INTERVAL_def)
  have j: "\<forall>c \<in> set ?calls. fst c - 1000 < CARD_UPDATE_MIN_INTERVAL"
    by (simp add: CARD_UPDATE_MIN_INTERVAL_def)
  have k: "tracked ''t1'' init"
    by (simp add: tracked_def init_def)
  have ri: "requests init = []" by (simp add: init_def)
  from throttled_burst [OF a k, where ?x0.0 = "''a''" and ?t0.0 = 1000, THEN conjunct2, THEN mp,
      OF conjI [OF i j]]
  obtain h2 p2 where
    r2: "requests (run (UpdateThrottled ''t1'' ''a'' 1000 # burst ''t1'' ?calls) init)
           = requests init @ [(''t1'', ''a'')]"
    and t2: "timers (run (UpdateThrottled ''t1'' ''a'' 1000 # burst ''t1'' ?calls) init) h2
           = Some \<lparr>callback = DelayedUpdate ''t1'' (snd (last ?calls)) p2,
                   due = 1000 + CARD_UPDATE_MIN_INTERVAL\<rparr>"
    and f2: "\<forall>t. 1000 + CARD_UPDATE_MIN_INTERVAL \<le> t \<longrightarrow>
           requests (fire h2 t (run (UpdateThrottled ''t1'' ''a'' 1000 # burst ''t1'' ?calls) init))
             = requests init @ [(''t1'', ''a''), (''t1'', snd (last ?calls))]"
    by blast
  have r2': "requests (run (UpdateThrottled ''t1'' ''a'' 1000 # burst ''t1'' ?calls) init)
           = [(''t1'', ''a'')]"
    using r2 by (simp add: ri)
  have t2': "timers (run (UpdateThrottled ''t1'' ''a'' 1000 # burst ''t1'' ?calls) init) h2
           = Some \<lparr>callback = DelayedUpdate ''t1'' ''c'' p2, due = 1500\<rparr>"
    using t2 unfolding la by (simp add: CARD_UPDATE_MIN_INTERVAL_def)
  have "1000 + CARD_UPDATE_MIN_INTERVAL \<le> 1500"
    by (simp add: CARD_UPDATE_MIN_INTERVAL_def)
  with f2 have f2': "requests (fire h2 1500
               (run (UpdateThrottled ''t1'' ''a'' 1000 # burst ''t1'' ?calls) init))
              = [(''t1'', ''a''), (''t1'', ''c'')]"
    unfolding la by (simp add: ri)
  from b' c r h t' f' i k r2' t2' f2' show ?thesis by blast
qed

subsection \<open>Superseded calls\<close>

text \<open>
  C10 does not hold in \<open>overtaken\<close>. The second call arms the delayed update with
  handle 0 and stores the handle. The first update succeeds before the third call:
  its continuation stores the handle of the inactivity timeout over it, without
  clearing it. The third call, which arrives before the delayed update fires, clears
  the inactivity timeout, not the delayed update: Node still holds handle 0 after the
  call. At 1500 it fires, the text of the second call is dispatched, and when that
  update succeeds the promise of the second call is resolved.
\<close>

theorem superseded_timer_not_cleared:
  "cardUpdateTimeouts (run (take 2 overtaken) init) ''t1'' = Some 0
   \<and> timers (run (take 2 overtaken) init) 0 = Some \<lparr>callback = DelayedUpdate ''t1'' ''b'' 1, due = 1500\<rparr>
   \<and> cardUpdateTimeouts (run (take 3 overtaken) init) ''t1'' = Some 1
   \<and> timers (run (take 3 overtaken) init) 1 = Some \<lparr>callback = InactivityTimeout ''t1'', due = 61200\<rparr>
   \<and> timers (run overtaken init) 0 = Some \<lparr>callback = DelayedUpdate ''t1'' ''b'' 1, due = 1500\<rparr>
   \<and> timers (run overtaken init) 1 = None
   \<and> requests (run (overtaken @ [Fire 0 1500]) init) = [(''t1'', ''a''), (''t1'', ''b'')]
   \<and> promises (run (overtaken @ [Fire 0 1500, Settle 1 Succeeded 1600]) init) 1 = Some Resolved"
  by (simp add: overtaken_def card_defs)

text \<open>
  What C10 says does hold as long as \<open>cardUpdateTimeouts\<close> still stores the handle of
  the delayed update when the newer call arrives. The rest of this section proves it.
\<close>

lemma resume_promises:
  "promises (resume who bizId v now s) p = promises s p \<or> who = Immediate p \<or> who = Delayed p"
  by (induction who bizId v now s rule: resume.induct) (auto simp: setTimeout_def)

lemma resume_timer_callback:
  "timers (resume who bizId v now s) h = Some t \<Longrightarrow>
   timers s h = Some t \<or> callback t = InactivityTimeout bizId"
  by (induction who bizId v now s rule: resume.induct)
    (auto simp: setTimeout_def split: if_splits)

text \<open>What one event does to the promises, the timers and the requests in flight.\<close>

lemma step_promises:
  "promises (step e s) p = promises s p
   \<or> nextPromise s \<le> p
   \<or> (\<exists>r rq. inflight s r = Some rq \<and> (caller rq = Immediate p \<or> caller rq = Delayed p))"
proof (cases e)
  case (UpdateThrottled bizId msg now)
  then show ?thesis
    by (cases "CARD_UPDATE_MIN_INTERVAL \<le> now - lastUpdateOf s bizId")
      (auto simp: throttled_immediate throttled_delayed)
next
  case (Settle r res now)
  show ?thesis
  proof (cases rule: settle_cases [of r res now s])
    case 1
    with Settle show ?thesis by simp
  next
    case (2 rq)
    with Settle resume_promises [of "caller rq" "target rq" _ now _ p] show ?thesis
      by fastforce
  qed
next
  case (Fire h now)
  then show ?thesis
    by (auto simp: fire_def updateInteractiveCard_call_def Let_def
        split: option.splits callback.splits)
next
  case (Cleanup now)
  then show ?thesis by (simp add: cleanupCardCache_def fold_cleanup_others)
qed (simp_all add: sendInteractiveCard_def updateInteractiveCard_call_def)

lemma step_nextPromise: "nextPromise s \<le> nextPromise (step e s)"
proof (cases e)
  case (UpdateThrottled bizId msg now)
  then show ?thesis
    by (cases "CARD_UPDATE_MIN_INTERVAL \<le> now - lastUpdateOf s bizId")
      (auto simp: throttled_immediate throttled_delayed)
next
  case (Fire h now)
  then show ?thesis
    by (auto simp: fire_def updateInteractiveCard_call_def Let_def
        split: option.splits callback.splits)
next
  case (Cleanup now)
  then show ?thesis by (simp add: cleanupCardCache_def fold_cleanup_others)
qed (simp_all add: sendInteractiveCard_def updateInteractiveCard_call_def)

lemma step_timer_callback:
  "timers (step e s) h = Some t \<Longrightarrow>
   timers s h = Some t
   \<or> (\<exists>b. callback t = InactivityTimeout b)
   \<or> (\<exists>b x. callback t = DelayedUpdate b x (nextPromise s)
         \<and> nextPromise (step e s) = Suc (nextPromise s))"
proof (cases e)
  case (UpdateThrottled bizId msg now)
  assume a: "timers (step e s) h = Some t"
  show ?thesis
  proof (cases "CARD_UPDATE_MIN_INTERVAL \<le> now - lastUpdateOf s bizId")
    case True
    with a UpdateThrottled show ?thesis
      by (auto simp: throttled_immediate clearExisting_timers split: if_splits)
  next
    case False
    with a UpdateThrottled show ?thesis
      by (auto simp: throttled_delayed clearExisting_timers split: if_splits)
  qed
next
  case (Settle r res now)
  assume a: "timers (step e s) h = Some t"
  show ?thesis
  proof (cases rule: settle_cases [of r res now s])
    case 1
    with a Settle show ?thesis by simp
  next
    case (2 rq)
    with a Settle resume_timer_callback [of "caller rq" "target rq" _ now _ h t] show ?thesis
      by fastforce
  qed
next
  case (Fire h' now)
  assume "timers (step e s) h = Some t"
  with Fire show ?thesis
    by (auto simp: fire_def updateInteractiveCard_call_def Let_def
        split: option.splits if_splits callback.splits)
next
  case (Cleanup now)
  assume "timers (step e s) h = Some t"
  with Cleanup show ?thesis
    by (auto simp: cleanupCardCache_def fold_cleanup_timers split: if_splits)
qed (simp_all add: sendInteractiveCard_def updateInteractiveCard_call_def)

lemma step_inflight:
  "inflight (step e s) r = Some rq \<Longrightarrow>
   inflight s r = Some rq
   \<or> caller rq = Direct
   \<or> (caller rq = Immediate (nextPromise s) \<and> nextPromise (step e s) = Suc (nextPromise s))
   \<or> (\<exists>h t b x p. timers s h = Some t \<and> callback t = DelayedUpdate b x p
         \<and> timers (step e s) h = None \<and> caller rq = Delayed p)"
proof (cases e)
  case (UpdateThrottled bizId msg now)
  assume a: "inflight (step e s) r = Some rq"
  show ?thesis
  proof (cases "CARD_UPDATE_MIN_INTERVAL \<le> now - lastUpdateOf s bizId")
    case True
    with a UpdateThrottled show ?thesis
      by (auto simp: throttled_immediate split: if_splits)
  next
    case False
    with a UpdateThrottled show ?thesis
      by (auto simp: throttled_delayed split: if_splits)
  qed
next
  case (Settle r' res now)
  assume a: "inflight (step e s) r = Some rq"
  show ?thesis
  proof (cases rule: settle_cases [of r' res now s])
    case 1
    with a Settle show ?thesis by simp
  next
    case (2 rq')
    with a Settle show ?thesis
      by (auto split: if_splits)
  qed
next
  case (Fire h now)
  assume a: "inflight (step e s) r = Some rq"
  show ?thesis
  proof (cases "timers s h")
    case None
    with a Fire show ?thesis by (simp add: fire_def)
  next
    case (Some t)
    show ?thesis
    proof (cases "now < due t")
      case True
      with a Fire Some show ?thesis by (simp add: fire_def)
    next
      case False
      show ?thesis
      proof (cases "callback t")
        case (InactivityTimeout b)
        with a Fire Some False show ?thesis by (simp add: fire_def)
      next
        case (DelayedUpdate b x p)
        with a Fire Some False have
          "inflight s r = Some rq \<or> caller rq = Delayed p" "timers (step e s) h = None"
          by (auto simp: fire_def updateInteractiveCard_call_def split: if_splits)
        with Some DelayedUpdate show ?thesis by blast
      qed
    qed
  qed
next
  case (Cleanup now)
  assume "inflight (step e s) r = Some rq"
  with Cleanup show ?thesis by (simp add: cleanupCardCache_def fold_cleanup_others)
next
  case (UpdateDirect bizId msg)
  assume "inflight (step e s) r = Some rq"
  with UpdateDirect show ?thesis
    by (auto simp: updateInteractiveCard_call_def split: if_splits)
qed (simp_all add: sendInteractiveCard_def)

lemma abandoned_step:
  assumes "abandoned p s"
  shows "abandoned p (step e s)"
  unfolding abandoned_def
proof (intro conjI allI impI)
  from assms have a: "promises s p = Some Pending" "p < nextPromise s"
    and t: "\<And>h t b x. timers s h = Some t \<Longrightarrow> callback t \<noteq> DelayedUpdate b x p"
    and r: "\<And>r rq. inflight s r = Some rq \<Longrightarrow> caller rq \<noteq> Immediate p \<and> caller rq \<noteq> Delayed p"
    unfolding abandoned_def by blast+
  show "promises (step e s) p = Some Pending"
    using step_promises [of e s p] a r by force
  show "p < nextPromise (step e s)"
    using step_nextPromise [of s e] a(2) by simp
  show "callback t' \<noteq> DelayedUpdate b x p" if "timers (step e s) h = Some t'" for h t' b x
    using step_timer_callback [OF that] t a(2) by auto
  show "caller rq \<noteq> Immediate p" "caller rq \<noteq> Delayed p"
    if "inflight (step e s) r' = Some rq" for r' rq
    using step_inflight [OF that] r t a(2) by auto
qed

lemma abandoned_run: "abandoned p s \<Longrightarrow> abandoned p (run es s)"
  by (induction es arbitrary: s) (simp_all add: abandoned_step)

lemma waiting_step:
  assumes "waiting p h s" and live: "timers (step e s) h \<noteq> None"
  shows "waiting p h (step e s)"
  unfolding waiting_def
proof (intro conjI allI impI)
  from assms(1) have a: "promises s p = Some Pending" "p < nextPromise s"
    and t: "\<And>h' t b x. timers s h' = Some t \<Longrightarrow> callback t = DelayedUpdate b x p \<Longrightarrow> h' = h"
    and r: "\<And>r rq. inflight s r = Some rq \<Longrightarrow> caller rq \<noteq> Immediate p \<and> caller rq \<noteq> Delayed p"
    unfolding waiting_def by blast+
  show "promises (step e s) p = Some Pending"
    using step_promises [of e s p] a r by force
  show "p < nextPromise (step e s)"
    using step_nextPromise [of s e] a(2) by simp
  show "h' = h" if "timers (step e s) h' = Some t' \<and> callback t' = DelayedUpdate b x p" for h' t' b x
    using step_timer_callback [of e s h' t'] that t a(2) by auto
  show "caller rq \<noteq> Immediate p" "caller rq \<noteq> Delayed p"
    if "inflight (step e s) r' = Some rq" for r' rq
    using step_inflight [OF that] r t a(2) live by auto
qed

lemma waiting_run:
  assumes "waiting p h s" and "h < nextTimer s" and "timers (run es s) h \<noteq> None"
  shows "waiting p h (run es s)"
  using assms
proof (induction es arbitrary: s)
  case Nil
  then show ?case by simp
next
  case (Cons e es)
  have b: "h < nextTimer (step e s)"
    using step_nextTimer [of s e] Cons.prems(2) by simp
  have "timers (step e s) h \<noteq> None"
  proof
    assume "timers (step e s) h = None"
    from cleared_stays_cleared [OF this b, of es] Cons.prems(3) show False by simp
  qed
  from waiting_step [OF Cons.prems(1) this] b Cons.prems(3) Cons.IH show ?case by simp
qed

lemma promises_known_step:
  assumes "promises_known s"
  shows "promises_known (step e s)"
  unfolding promises_known_def
proof (intro conjI allI impI)
  from assms have t: "\<And>h t b x p. timers s h = Some t \<Longrightarrow> callback t = DelayedUpdate b x p
        \<Longrightarrow> p < nextPromise s"
    and r: "\<And>r rq p. inflight s r = Some rq \<Longrightarrow> caller rq = Immediate p \<or> caller rq = Delayed p
        \<Longrightarrow> p < nextPromise s"
    unfolding promises_known_def by blast+
  note m = step_nextPromise [of s e]
  show "p < nextPromise (step e s)"
    if "timers (step e s) h = Some t' \<and> callback t' = DelayedUpdate b x p" for h t' b x p
    using step_timer_callback [of e s h t'] that t [of h t' b x p] m by auto
  show "p < nextPromise (step e s)"
    if "inflight (step e s) r' = Some rq \<and> (caller rq = Immediate p \<or> caller rq = Delayed p)"
    for r' rq p
  proof -
    from that have i: "inflight (step e s) r' = Some rq" by simp
    from step_inflight [OF i] that r [of r' rq p] t m show ?thesis
      by (elim disjE) (auto dest: t)
  qed
qed

lemma promises_known_run: "promises_known s \<Longrightarrow> promises_known (run es s)"
  by (induction es arbitrary: s) (simp_all add: promises_known_step)

lemma promises_known_init: "promises_known init"
  by (simp add: promises_known_def init_def)

lemma run_nextTimer: "nextTimer s \<le> nextTimer (run es s)"
proof (induction es arbitrary: s)
  case Nil
  then show ?case by simp
next
  case (Cons e es)
  from Cons.IH [of "step e s"] step_nextTimer [of s e] show ?case by simp
qed

lemma delayed_call_waiting:
  assumes k: "promises_known s"
    and d: "now - lastUpdateOf s bizId < CARD_UPDATE_MIN_INTERVAL"
  shows "waiting (nextPromise s) (nextTimer s) (snd (updateInteractiveCardThrottled bizId msg now s))"
proof -
  from k have t: "\<And>h t b x p. timers s h = Some t \<Longrightarrow> callback t = DelayedUpdate b x p
        \<Longrightarrow> p < nextPromise s"
    and r: "\<And>r rq p. inflight s r = Some rq \<Longrightarrow> caller rq = Immediate p \<or> caller rq = Delayed p
        \<Longrightarrow> p < nextPromise s"
    unfolding promises_known_def by blast+
  note eq = throttled_delayed [OF d, of msg]
  show ?thesis
    unfolding waiting_def
  proof (intro conjI allI impI)
    show "promises (snd (updateInteractiveCardThrottled bizId msg now s)) (nextPromise s) = Some Pending"
      "nextPromise s < nextPromise (snd (updateInteractiveCardThrottled bizId msg now s))"
      by (simp_all add: eq)
    show "h' = nextTimer s"
      if "timers (snd (updateInteractiveCardThrottled bizId msg now s)) h' = Some t'
          \<and> callback t' = DelayedUpdate b x (nextPromise s)" for h' t' b x
    proof (rule ccontr)
      assume "h' \<noteq> nextTimer s"
      with that have "timers s h' = Some t'"
        by (simp add: eq clearExisting_timers split: if_splits)
      from t [OF this] that show False by auto
    qed
    show "caller rq \<noteq> Immediate (nextPromise s)" "caller rq \<noteq> Delayed (nextPromise s)"
      if "inflight (snd (updateInteractiveCardThrottled bizId msg now s)) r' = Some rq" for r' rq
      using that r [of r' rq "nextPromise s"] by (auto simp: eq)
  qed
qed

lemma superseding_call_abandons:
  assumes w: "waiting p h s"
    and reg: "cardUpdateTimeouts s bizId = Some h"
    and h: "h < nextTimer s"
  shows "timers (snd (updateInteractiveCardThrottled bizId msg now s)) h = None
    \<and> abandoned p (snd (updateInteractiveCardThrottled bizId msg now s))"
proof -
  from w have a: "promises s p = Some Pending" "p < nextPromise s"
    and t: "\<And>h' t b x. timers s h' = Some t \<Longrightarrow> callback t = DelayedUpdate b x p \<Longrightarrow> h' = h"
    and r: "\<And>r rq. inflight s r = Some rq \<Longrightarrow> caller rq \<noteq> Immediate p \<and> caller rq \<noteq> Delayed p"
    unfolding waiting_def by blast+
  have c: "timers (clearExisting bizId s) h = None"
    by (simp add: clearExisting_timers reg)
  have c': "timers s h' = Some t'" if "timers (clearExisting bizId s) h' = Some t'" for h' t'
    using that by (simp add: clearExisting_timers split: if_splits)
  show ?thesis
  proof (cases "CARD_UPDATE_MIN_INTERVAL \<le> now - lastUpdateOf s bizId")
    case True
    note eq = throttled_immediate [OF True, of msg]
    have "abandoned p (snd (updateInteractiveCardThrottled bizId msg now s))"
      unfolding abandoned_def
    proof (intro conjI allI impI)
      show "promises (snd (updateInteractiveCardThrottled bizId msg now s)) p = Some Pending"
        "p < nextPromise (snd (updateInteractiveCardThrottled bizId msg now s))"
        using a by (simp_all add: eq)
      show "callback t' \<noteq> DelayedUpdate b x p"
        if "timers (snd (updateInteractiveCardThrottled bizId msg now s)) h' = Some t'" for h' t' b x
      proof
        assume cb: "callback t' = DelayedUpdate b x p"
        from that have l: "timers (clearExisting bizId s) h' = Some t'" by (simp add: eq)
        from t [OF c' [OF l] cb] l c show False by simp
      qed
      show "caller rq \<noteq> Immediate p" "caller rq \<noteq> Delayed p"
        if "inflight (snd (updateInteractiveCardThrottled bizId msg now s)) r' = Some rq" for r' rq
        using that r [of r' rq] a(2) by (auto simp: eq split: if_splits)
    qed
    moreover have "timers (snd (updateInteractiveCardThrottled bizId msg now s)) h = None"
      by (simp add: eq c)
    ultimately show ?thesis by simp
  next
    case False
    then have d: "now - lastUpdateOf s bizId < CARD_UPDATE_MIN_INTERVAL" by simp
    note eq = throttled_delayed [OF d, of msg]
    have "abandoned p (snd (updateInteractiveCardThrottled bizId msg now s))"
      unfolding abandoned_def
    proof (intro conjI allI impI)
      show "promises (snd (updateInteractiveCardThrottled bizId msg now s)) p = Some Pending"
        "p < nextPromise (snd (updateInteractiveCardThrottled bizId msg now s))"
        using a by (simp_all add: eq)
      show "callback t' \<noteq> DelayedUpdate b x p"
        if "timers (snd (updateInteractiveCardThrottled bizId msg now s)) h' = Some t'" for h' t' b x
      proof
        assume cb: "callback t' = DelayedUpdate b x p"
        show False
        proof (cases "h' = nextTimer s")
          case True
          with that cb a(2) show False by (auto simp: eq)
        next
          case False
          with that have l: "timers (clearExisting bizId s) h' = Some t'" by (simp add: eq)
          from t [OF c' [OF l] cb] l c show False by simp
        qed
      qed
      show "caller rq \<noteq> Immediate p" "caller rq \<noteq> Delayed p"
        if "inflight (snd (updateInteractiveCardThrottled bizId msg now s)) r' = Some rq" for r' rq
        using that r [of r' rq] by (auto simp: eq)
    qed
    moreover have "timers (snd (updateInteractiveCardThrottled bizId msg now s)) h = None"
      using h by (simp add: eq c)
    ultimately show ?thesis by simp
  qed
qed

text \<open>
  In a state the module can reach, let a throttled call arm a delayed update. If,
  after any further events, Node still holds that timer and \<open>cardUpdateTimeouts\<close>
  still stores its handle for the card, then a newer call for the card clears the
  timer, and whatever happens afterwards the promise of the earlier call stays
  pending.
\<close>

lemma superseded_never_settles:
  assumes reach: "s = run es0 init"
    and d: "now - lastUpdateOf s bizId < CARD_UPDATE_MIN_INTERVAL"
    and reg: "cardUpdateTimeouts (run es1 (snd (updateInteractiveCardThrottled bizId x now s))) bizId
                = Some (nextTimer s)"
    and live: "timers (run es1 (snd (updateInteractiveCardThrottled bizId x now s))) (nextTimer s) \<noteq> None"
  shows "timers (snd (updateInteractiveCardThrottled bizId y now'
                  (run es1 (snd (updateInteractiveCardThrottled bizId x now s))))) (nextTimer s) = None
    \<and> (\<forall>es2. promises (run es2 (snd (updateInteractiveCardThrottled bizId y now'
                  (run es1 (snd (updateInteractiveCardThrottled bizId x now s))))))
                (fst (updateInteractiveCardThrottled bizId x now s)) = Some Pending)"
proof -
  let ?s1 = "snd (updateInteractiveCardThrottled bizId x now s)"
  let ?s2 = "snd (updateInteractiveCardThrottled bizId y now' (run es1 ?s1))"
  have k: "promises_known s"
    using reach promises_known_run [OF promises_known_init] by simp
  have p: "fst (updateInteractiveCardThrottled bizId x now s) = nextPromise s"
    and n: "nextTimer ?s1 = Suc (nextTimer s)"
    by (simp_all add: throttled_delayed [OF d])
  have h1: "nextTimer s < nextTimer ?s1" by (simp add: n)
  have h2: "nextTimer s < nextTimer (run es1 ?s1)"
    using run_nextTimer [of ?s1 es1] h1 by simp
  have w: "waiting (nextPromise s) (nextTimer s) (run es1 ?s1)"
    by (rule waiting_run [OF delayed_call_waiting [OF k d] h1 live])
  from superseding_call_abandons [OF w reg h2, of y now']
  have c: "timers ?s2 (nextTimer s) = None" and a: "abandoned (nextPromise s) ?s2"
    by simp_all
  have "promises (run es2 ?s2) (nextPromise s) = Some Pending" for es2
    using abandoned_run [OF a, of es2] by (simp add: abandoned_def)
  with c show ?thesis by (simp add: p)
qed

text \<open>
  An instance: after the update of \<open>oneCard\<close> at 1000, a call at 1100 arms a delayed
  update and a call at 1400 supersedes it. The promise of the call at 1100, promise 1,
  stays pending whatever happens next.
\<close>

lemma superseded_example:
  "timers (run (burst ''c1'' [(1100, ''b'')]) oneCard) 0
     = Some \<lparr>callback = DelayedUpdate ''c1'' ''b'' 1, due = 1500\<rparr>
   \<and> timers (run (burst ''c1'' [(1100, ''b''), (1400, ''c'')]) oneCard) 0 = None
   \<and> promises (run es (run (burst ''c1'' [(1100, ''b''), (1400, ''c'')]) oneCard)) 1 = Some Pending"
proof -
  have l: "lastUpdateOf oneCard ''c1'' = 1000" "nextTimer oneCard = 0" "nextPromise oneCard = 1"
    by (simp_all add: oneCard_def card_defs)
  have d: "1100 - lastUpdateOf oneCard ''c1'' < CARD_UPDATE_MIN_INTERVAL"
    by (simp add: l CARD_UPDATE_MIN_INTERVAL_def)
  let ?s1 = "snd (updateInteractiveCardThrottled ''c1'' ''b'' 1100 oneCard)"
  have t: "timers ?s1 0 = Some \<lparr>callback = DelayedUpdate ''c1'' ''b'' 1, due = 1500\<rparr>"
    and r: "cardUpdateTimeouts ?s1 ''c1'' = Some 0"
    and p: "fst (updateInteractiveCardThrottled ''c1'' ''b'' 1100 oneCard) = 1"
    by (simp_all add: throttled_delayed [OF d] l CARD_UPDATE_MIN_INTERVAL_def)
  have reg: "cardUpdateTimeouts (run [] ?s1) ''c1'' = Some (nextTimer oneCard)"
    and live: "timers (run [] ?s1) (nextTimer oneCard) \<noteq> None"
    by (simp_all add: t r l)
  note s = superseded_never_settles [OF oneCard_def d reg live, of "''c''" 1400]
  have "timers (snd (updateInteractiveCardThrottled ''c1'' ''c'' 1400 ?s1)) 0 = None"
    using s [THEN conjunct1] by (simp add: l)
  moreover have "promises (run es (snd (updateInteractiveCardThrottled ''c1'' ''c'' 1400 ?s1))) 1
      = Some Pending"
    using s [THEN conjunct2, rule_format, of es] by (simp add: l p)
  ultimately show ?thesis
    using t by (simp add: burst_def)
qed

end
